theory Spec2Isabelle
  imports Main "HOL-Library.Word"
begin

unbundle bit_operations_syntax

section \<open>Machine integer types\<close>

type_synonym u8 = "8 word"
type_synonym u16 = "16 word"
type_synonym u32 = "32 word"
type_synonym u64 = "64 word"

section \<open>Kernel thread scheduler (kernel/sched/sched.c)\<close>

definition MAX_THREADS :: nat where
  "MAX_THREADS = 16"

definition AGING_THRESHOLD_KT :: nat where
  "AGING_THRESHOLD_KT = 32"

definition SCHED_PRIORITY_REALTIME :: int where
  "SCHED_PRIORITY_REALTIME = 0"

definition SCHED_PRIORITY_INTERACTIVE :: int where
  "SCHED_PRIORITY_INTERACTIVE = 1"

definition SCHED_PRIORITY_BACKGROUND :: int where
  "SCHED_PRIORITY_BACKGROUND = 2"

definition SCHED_PRIORITY_BATCH :: int where
  "SCHED_PRIORITY_BATCH = 3"

definition SCHED_PRIORITY_LEVELS :: int where
  "SCHED_PRIORITY_LEVELS = 4"

definition priority_quantum :: "int list" where
  "priority_quantum = [4, 6, 10, 18]"

definition DEFAULT_PRIORITY :: int where
  "DEFAULT_PRIORITY = SCHED_PRIORITY_INTERACTIVE"

datatype tstate = T_UNUSED | T_READY | T_RUNNING | T_BLOCKED

record kthread =
  esp :: u32
  state :: tstate
  name :: string
  priority :: u8
  slice_left :: u8
  wait_ticks :: u16

text \<open>The static thread table \<open>th[MAX_THREADS]\<close> and the index \<open>current\<close>.\<close>

record sched_state =
  th :: "kthread list"
  current :: int

text \<open>
  \<open>refill_slice\<close>: out-of-range ids return at once; otherwise the slice becomes the
  quantum of the thread's priority (an \<open>int\<close> stored into a \<open>uint8_t\<close>).
\<close>

definition refill_slice :: "int \<Rightarrow> kthread list \<Rightarrow> kthread list" where
  "refill_slice tid ts =
     (if tid < 0 \<or> tid \<ge> int MAX_THREADS then ts
      else ts[nat tid := (ts ! nat tid)
             \<lparr>slice_left := word_of_int (priority_quantum ! unat (priority (ts ! nat tid)))\<rparr>])"

definition zero_thread :: kthread where
  "zero_thread = \<lparr>esp = 0, state = T_UNUSED, name = [], priority = 0,
                   slice_left = 0, wait_ticks = 0\<rparr>"

text \<open>\<open>sched_init\<close>: the table is zeroed, slot 0 becomes the running bootstrap thread.\<close>

definition sched_init :: sched_state where
  "sched_init =
     (let ts = replicate MAX_THREADS zero_thread;
          ts = ts[0 := (ts ! 0)\<lparr>state := T_RUNNING\<rparr>];
          ts = ts[0 := (ts ! 0)\<lparr>name := ''idle''\<rparr>];
          ts = ts[0 := (ts ! 0)\<lparr>priority := word_of_int SCHED_PRIORITY_BATCH\<rparr>];
          ts = ts[0 := (ts ! 0)\<lparr>wait_ticks := 0\<rparr>];
          ts = refill_slice 0 ts
      in \<lparr>th = ts, current = 0\<rparr>)"

text \<open>
  \<open>kthread_create\<close>. The stack comes from \<open>new_stack_with_trampoline\<close>, whose allocator
  is outside this code base: its result is the parameter \<open>new_esp\<close> (0 when the
  allocation fails). The name is copied up to 15 characters; a null name gives the
  empty string.
\<close>

fun kthread_create_from :: "nat \<Rightarrow> nat \<Rightarrow> u32 \<Rightarrow> string option \<Rightarrow> sched_state
                             \<Rightarrow> int \<times> sched_state" where
  "kthread_create_from i 0 new_esp nm s = (-1, s)"
| "kthread_create_from i (Suc n) new_esp nm s =
     (if state (th s ! i) = T_UNUSED then
        (if new_esp = 0 then (-1, s)
         else
           (let ts = th s;
                ts = ts[i := (ts ! i)\<lparr>esp := new_esp\<rparr>];
                ts = ts[i := (ts ! i)\<lparr>state := T_READY\<rparr>];
                ts = ts[i := (ts ! i)\<lparr>name := (case nm of None \<Rightarrow> [] | Some x \<Rightarrow> take 15 x)\<rparr>];
                ts = ts[i := (ts ! i)\<lparr>priority := word_of_int DEFAULT_PRIORITY\<rparr>];
                ts = ts[i := (ts ! i)\<lparr>wait_ticks := 0\<rparr>];
                ts = refill_slice (int i) ts
            in (int i, s\<lparr>th := ts\<rparr>)))
      else kthread_create_from (Suc i) n new_esp nm s)"

definition kthread_create :: "u32 \<Rightarrow> string option \<Rightarrow> sched_state \<Rightarrow> int \<times> sched_state" where
  "kthread_create new_esp nm s = kthread_create_from 1 (MAX_THREADS - 1) new_esp nm s"

text \<open>\<open>sched_set_priority\<close>: returns the status and the new state.\<close>

definition sched_set_priority :: "int \<Rightarrow> int \<Rightarrow> sched_state \<Rightarrow> int \<times> sched_state" where
  "sched_set_priority pid prio s =
     (if pid < 0 \<or> pid \<ge> int MAX_THREADS then (-1, s)
      else if prio < SCHED_PRIORITY_REALTIME \<or> prio \<ge> SCHED_PRIORITY_LEVELS then (-1, s)
      else if state (th s ! nat pid) = T_UNUSED then (-1, s)
      else
        (let ts = th s;
             ts = ts[nat pid := (ts ! nat pid)\<lparr>priority := word_of_int prio\<rparr>];
             ts = ts[nat pid := (ts ! nat pid)\<lparr>wait_ticks := 0\<rparr>];
             ts = refill_slice pid ts
         in (0, s\<lparr>th := ts\<rparr>)))"

text \<open>
  \<open>apply_aging\<close>: one pass over slots 1..15. A READY thread whose wait has reached the
  threshold and whose priority is not REALTIME moves up one level.
\<close>

definition aging_step :: "nat \<Rightarrow> kthread list \<Rightarrow> kthread list" where
  "aging_step i ts =
     (if state (ts ! i) = T_READY \<and> unat (wait_ticks (ts ! i)) \<ge> AGING_THRESHOLD_KT
         \<and> uint (priority (ts ! i)) > SCHED_PRIORITY_REALTIME
      then
        (let ts = ts[i := (ts ! i)\<lparr>priority := priority (ts ! i) - 1\<rparr>];
             ts = ts[i := (ts ! i)\<lparr>wait_ticks := 0\<rparr>]
         in refill_slice (int i) ts)
      else ts)"

definition apply_aging :: "kthread list \<Rightarrow> kthread list" where
  "apply_aging ts = fold aging_step [1..<MAX_THREADS] ts"

text \<open>
  \<open>select_next\<close>: the loop state is \<open>(best, best_prio, best_wait)\<close>, started at
  \<open>(-1, SCHED_PRIORITY_LEVELS, -1)\<close>.
\<close>

definition select_step :: "kthread list \<Rightarrow> nat \<Rightarrow> int \<times> int \<times> int \<Rightarrow> int \<times> int \<times> int" where
  "select_step ts i acc =
     (case acc of (best, best_prio, best_wait) \<Rightarrow>
        if state (ts ! i) = T_READY then
          (let prio = uint (priority (ts ! i));
               wait = uint (wait_ticks (ts ! i))
           in if best < 0 \<or> prio < best_prio \<or> (prio = best_prio \<and> wait > best_wait)
              then (int i, prio, wait) else acc)
        else acc)"

definition select_next :: "kthread list \<Rightarrow> int" where
  "select_next ts = fst (fold (select_step ts) [1..<MAX_THREADS] (-1, SCHED_PRIORITY_LEVELS, -1))"

text \<open>
  \<open>sched_yield\<close>. The register switch \<open>ctx_switch\<close> is assembly outside this code base;
  it stores the machine stack pointer of the outgoing thread, which the model leaves
  as it is.
\<close>

definition sched_yield :: "sched_state \<Rightarrow> sched_state" where
  "sched_yield s =
     (let ts = apply_aging (th s);
          nxt = select_next ts
      in if nxt < 0 \<or> nxt = current s then s\<lparr>th := ts\<rparr>
         else
           (let prev = current s;
                ts = ts[nat prev := (ts ! nat prev)\<lparr>state := T_READY\<rparr>];
                ts = ts[nat prev := (ts ! nat prev)\<lparr>wait_ticks := 0\<rparr>];
                ts = refill_slice prev ts;
                ts = ts[nat nxt := (ts ! nat nxt)\<lparr>state := T_RUNNING\<rparr>];
                ts = ts[nat nxt := (ts ! nat nxt)\<lparr>wait_ticks := 0\<rparr>];
                ts = refill_slice nxt ts
            in \<lparr>th = ts, current = nxt\<rparr>))"

definition wait_step :: "int \<Rightarrow> nat \<Rightarrow> kthread list \<Rightarrow> kthread list" where
  "wait_step cur i ts =
     (if int i \<noteq> cur \<and> state (ts ! i) = T_READY
      then ts[i := (ts ! i)\<lparr>wait_ticks := wait_ticks (ts ! i) + 1\<rparr>]
      else ts)"

definition sched_tick :: "sched_state \<Rightarrow> sched_state" where
  "sched_tick s =
     (if current s < 0 then s
      else
        (let cur = nat (current s);
             ts = fold (wait_step (current s)) [1..<MAX_THREADS] (th s);
             ts = (if slice_left (ts ! cur) > 0
                   then ts[cur := (ts ! cur)\<lparr>slice_left := slice_left (ts ! cur) - 1\<rparr>]
                   else ts);
             ts = apply_aging ts;
             nxt = select_next ts
         in if nxt \<ge> 0 \<and> (priority (ts ! nat nxt) < priority (ts ! cur)
                            \<or> slice_left (ts ! cur) = 0)
            then
              sched_yield (s\<lparr>th := ts[cur := (ts ! cur)
                 \<lparr>slice_left := word_of_int (priority_quantum ! unat (priority (ts ! cur)))\<rparr>]\<rparr>)
            else if slice_left (ts ! cur) = 0
            then s\<lparr>th := refill_slice (current s) ts\<rparr>
            else s\<lparr>th := ts\<rparr>))"

text \<open>\<open>n\<close> timer interrupts in a row.\<close>

primrec ticks :: "nat \<Rightarrow> sched_state \<Rightarrow> sched_state" where
  "ticks 0 s = s"
| "ticks (Suc n) s = ticks n (sched_tick s)"


section \<open>Topology and profiles (kernel/htas.h, kernel/sched/htas.c)\<close>

definition NUM_CPUS :: nat where
  "NUM_CPUS = 4"

definition NUM_NUMA_NODES :: nat where
  "NUM_NUMA_NODES = 2"

definition LOW_LATENCY_PRIORITY_BOOST :: int where
  "LOW_LATENCY_PRIORITY_BOOST = 10"

definition AGING_THRESHOLD :: nat where
  "AGING_THRESHOLD = 100"

definition AGING_PRIORITY_BOOST :: int where
  "AGING_PRIORITY_BOOST = 5"

datatype cpu_type = CPU_TYPE_PCORE | CPU_TYPE_ECORE

record cpu_info =
  cpu_id :: u8
  type :: cpu_type
  numa_node :: u8
  online :: bool

definition g_cpu_topology :: "cpu_info list" where
  "g_cpu_topology =
     [\<lparr>cpu_id = 0, type = CPU_TYPE_PCORE, numa_node = 0, online = True\<rparr>,
      \<lparr>cpu_id = 1, type = CPU_TYPE_PCORE, numa_node = 0, online = True\<rparr>,
      \<lparr>cpu_id = 2, type = CPU_TYPE_ECORE, numa_node = 1, online = True\<rparr>,
      \<lparr>cpu_id = 3, type = CPU_TYPE_ECORE, numa_node = 1, online = True\<rparr>]"

record numa_region =
  base :: u32
  region_size :: u32

definition g_numa_regions :: "numa_region list" where
  "g_numa_regions =
     [\<lparr>base = 0x00000000, region_size = 0x08000000\<rparr>,
      \<lparr>base = 0x08000000, region_size = 0x08000000\<rparr>]"

datatype task_intent =
  PROFILE_PERFORMANCE | PROFILE_EFFICIENCY | PROFILE_LOW_LATENCY | PROFILE_DEFAULT

text \<open>A null \<open>primary_data_region\<close> is the address 0.\<close>

record task_profile =
  intent :: task_intent
  primary_data_region :: u32
  data_size :: u32

datatype scheduler_type = SCHED_BASELINE | SCHED_HTAS | SCHED_DYNAMIC

record htas_task_info =
  profile :: task_profile
  cpu_affinity_mask :: u32
  priority_boost :: int
  preferred_numa_node :: u8
  info_wait_time :: u32
  info_priority_boost_aging :: int
  total_runtime_us :: u64
  total_switches :: u64
  info_numa_penalties :: u64

text \<open>
  \<open>htas_get_numa_node_for_address\<close>: the first region whose half-open range holds the
  address; 0 when none does. The end of a region is computed in 32 bits.
\<close>

fun numa_scan :: "nat \<Rightarrow> numa_region list \<Rightarrow> u32 \<Rightarrow> u8" where
  "numa_scan i [] address = 0"
| "numa_scan i (r # rs) address =
     (if address \<ge> base r \<and> address < base r + region_size r then of_nat i
      else numa_scan (Suc i) rs address)"

definition htas_get_numa_node_for_address :: "u32 \<Rightarrow> u8" where
  "htas_get_numa_node_for_address addr = numa_scan 0 g_numa_regions addr"

text \<open>The mask loops of \<open>htas_calculate_affinity\<close>: bit \<open>i\<close> for every matching CPU.\<close>

definition type_mask :: "cpu_type \<Rightarrow> u32" where
  "type_mask t =
     fold (\<lambda>i mask. if type (g_cpu_topology ! i) = t then mask OR push_bit i 1 else mask)
       [0..<NUM_CPUS] 0"

definition numa_cpu_mask :: "u8 \<Rightarrow> u32" where
  "numa_cpu_mask node =
     fold (\<lambda>i mask. if numa_node (g_cpu_topology ! i) = node then mask OR push_bit i 1 else mask)
       [0..<NUM_CPUS] 0"

definition intent_mask :: "task_intent \<Rightarrow> u32" where
  "intent_mask it =
     (case it of
        PROFILE_PERFORMANCE \<Rightarrow> type_mask CPU_TYPE_PCORE
      | PROFILE_LOW_LATENCY \<Rightarrow> type_mask CPU_TYPE_PCORE
      | PROFILE_EFFICIENCY \<Rightarrow> type_mask CPU_TYPE_ECORE
      | PROFILE_DEFAULT \<Rightarrow> push_bit NUM_CPUS 1 - 1)"

text \<open>
  \<open>htas_calculate_affinity\<close>. When the NUMA restriction leaves no CPU the function
  calls itself on the same intent with a null data region (the warning it prints is
  not modelled).
\<close>

function htas_calculate_affinity :: "task_profile \<Rightarrow> u32" where
  "htas_calculate_affinity p =
     (if primary_data_region p \<noteq> 0 then
        (if intent_mask (intent p)
              AND numa_cpu_mask (htas_get_numa_node_for_address (primary_data_region p)) = 0
         then htas_calculate_affinity \<lparr>intent = intent p, primary_data_region = 0, data_size = 0\<rparr>
         else intent_mask (intent p)
              AND numa_cpu_mask (htas_get_numa_node_for_address (primary_data_region p)))
      else intent_mask (intent p))"
  by pat_completeness auto
termination
  by (relation "measure (\<lambda>p. if primary_data_region p = 0 then 0 else 1)") auto

text \<open>
  Modelled from the spec: \<open>process.h\<close> is not among the sources. A process carries a
  state, of which the scheduler tests UNUSED, READY and RUNNING (every other state is
  \<open>PROC_OTHER\<close>), and an optional \<open>htas_info\<close> block.
\<close>

datatype proc_state = PROC_UNUSED | PROC_READY | PROC_RUNNING | PROC_OTHER

record process =
  pstate :: proc_state
  htas_info :: "htas_task_info option"

definition zero_htas_info :: htas_task_info where
  "zero_htas_info =
     \<lparr>profile = \<lparr>intent = PROFILE_PERFORMANCE, primary_data_region = 0, data_size = 0\<rparr>,
      cpu_affinity_mask = 0, priority_boost = 0, preferred_numa_node = 0,
      info_wait_time = 0, info_priority_boost_aging = 0, total_runtime_us = 0,
      total_switches = 0, info_numa_penalties = 0\<rparr>"

text \<open>
  \<open>sys_sched_set_profile\<close>. \<open>process_find\<close> and \<open>kmalloc\<close> are outside the sources:
  \<open>found\<close> is the table slot \<open>process_find\<close> returns (\<open>None\<close> for a null pointer) and
  \<open>alloc_ok\<close> tells whether \<open>kmalloc\<close> succeeds.
\<close>

definition sys_sched_set_profile ::
  "(u32 \<Rightarrow> nat option) \<Rightarrow> bool \<Rightarrow> u32 \<Rightarrow> task_profile \<Rightarrow> process list \<Rightarrow> int \<times> process list" where
  "sys_sched_set_profile process_find alloc_ok pid prof procs =
     (case process_find pid of
        None \<Rightarrow> (-1, procs)
      | Some i \<Rightarrow>
          (case (case htas_info (procs ! i) of
                   None \<Rightarrow> (if alloc_ok then Some zero_htas_info else None)
                 | Some info \<Rightarrow> Some info) of
             None \<Rightarrow> (-1, procs)
           | Some info \<Rightarrow>
               (let info = info\<lparr>profile := prof\<rparr>;
                    info = info\<lparr>cpu_affinity_mask := htas_calculate_affinity prof\<rparr>;
                    info = (if intent prof = PROFILE_LOW_LATENCY
                            then info\<lparr>priority_boost := LOW_LATENCY_PRIORITY_BOOST\<rparr>
                            else info\<lparr>priority_boost := 0\<rparr>);
                    info = (if primary_data_region prof \<noteq> 0
                            then info\<lparr>preferred_numa_node :=
                                   htas_get_numa_node_for_address (primary_data_region prof)\<rparr>
                            else info\<lparr>preferred_numa_node := 0\<rparr>)
                in (0, procs[i := (procs ! i)\<lparr>htas_info := Some info\<rparr>]))))"

text \<open>
  Pointers to processes, as \<open>baseline_select_next\<close> compares them: null, the address of
  a slot of the process table, or a process object outside the table.
\<close>

datatype proc_ptr = Null | Slot nat | Outside process

definition ptr_state :: "process list \<Rightarrow> proc_ptr \<Rightarrow> proc_state option" where
  "ptr_state procs p =
     (case p of Null \<Rightarrow> None | Slot k \<Rightarrow> Some (pstate (procs ! k)) | Outside q \<Rightarrow> Some (pstate q))"

text \<open>
  \<open>baseline_select_next\<close>. \<open>MAX_PROCESSES\<close> (declared in the missing \<open>process.h\<close>) is the
  length of the table \<open>process_get_list\<close> returns; \<open>cur\<close> is the result of
  \<open>process_current\<close>; the static \<open>rr_cursor\<close> is passed in and returned.
\<close>

definition current_index :: "process list \<Rightarrow> proc_ptr \<Rightarrow> int" where
  "current_index procs cur =
     (case cur of Slot k \<Rightarrow> (if k < length procs then int k else -1) | _ \<Rightarrow> -1)"

definition current_candidate :: "process list \<Rightarrow> proc_ptr \<Rightarrow> proc_ptr" where
  "current_candidate procs cur =
     (if cur \<noteq> Null \<and> (ptr_state procs cur = Some PROC_READY \<or> ptr_state procs cur = Some PROC_RUNNING)
      then cur else Null)"

definition rr_start :: "process list \<Rightarrow> proc_ptr \<Rightarrow> int \<Rightarrow> nat" where
  "rr_start procs cur rr_cursor =
     (let rr_cursor = (if current_index procs cur \<ge> 0 then current_index procs cur else rr_cursor)
      in if rr_cursor \<ge> 0 then nat ((rr_cursor + 1) mod int (length procs)) else 0)"

text \<open>The loop body's three \<open>continue\<close> tests, in the source's order.\<close>

definition rr_skips :: "process list \<Rightarrow> proc_ptr \<Rightarrow> nat \<Rightarrow> bool" where
  "rr_skips procs cand idx =
     (if pstate (procs ! idx) = PROC_UNUSED then True
      else if Slot idx = cand then True
      else if pstate (procs ! idx) \<noteq> PROC_READY \<and> pstate (procs ! idx) \<noteq> PROC_RUNNING then True
      else False)"

primrec rr_scan :: "process list \<Rightarrow> proc_ptr \<Rightarrow> nat \<Rightarrow> nat \<Rightarrow> nat \<Rightarrow> nat option" where
  "rr_scan procs cand start scanned 0 = None"
| "rr_scan procs cand start scanned (Suc n) =
     (let idx = (start + scanned) mod length procs
      in if rr_skips procs cand idx then rr_scan procs cand start (Suc scanned) n
         else Some idx)"

definition baseline_select_next :: "process list \<Rightarrow> proc_ptr \<Rightarrow> int \<Rightarrow> proc_ptr \<times> int" where
  "baseline_select_next procs cur rr_cursor =
     (let current_idx = current_index procs cur;
          cand = current_candidate procs cur;
          rr_cursor = (if current_idx \<ge> 0 then current_idx else rr_cursor);
          start = (if rr_cursor \<ge> 0 then nat ((rr_cursor + 1) mod int (length procs)) else 0)
      in case rr_scan procs cand start 0 (length procs) of
           Some idx \<Rightarrow> (Slot idx, int idx)
         | None \<Rightarrow>
             (if cand \<noteq> Null
              then (cand, if current_idx \<ge> 0 then current_idx else rr_cursor)
              else (Null, -1)))"

text \<open>The states \<open>baseline_select_next\<close> accepts.\<close>

definition runnable :: "proc_state \<Rightarrow> bool" where
  "runnable st \<longleftrightarrow> st = PROC_READY \<or> st = PROC_RUNNING"

text \<open>A READY or RUNNING table slot other than the current process.\<close>

definition other_runnable :: "process list \<Rightarrow> proc_ptr \<Rightarrow> nat \<Rightarrow> bool" where
  "other_runnable procs cur i \<longleftrightarrow>
     i < length procs \<and> runnable (pstate (procs ! i)) \<and> Slot i \<noteq> cur"

text \<open>A slot pointer lies inside the table.\<close>

definition valid_ptr :: "process list \<Rightarrow> proc_ptr \<Rightarrow> bool" where
  "valid_ptr procs p \<longleftrightarrow> (case p of Slot k \<Rightarrow> k < length procs | _ \<Rightarrow> True)"

text \<open>The pointer addresses a READY or RUNNING process.\<close>

definition ptr_runnable :: "process list \<Rightarrow> proc_ptr \<Rightarrow> bool" where
  "ptr_runnable procs p \<longleftrightarrow>
     (case ptr_state procs p of None \<Rightarrow> False | Some st \<Rightarrow> runnable st)"

text \<open>Concrete process tables and profiles used to evaluate the model.\<close>

definition demo_procs :: "process list" where
  "demo_procs =
     [\<lparr>pstate = PROC_RUNNING, htas_info = None\<rparr>,
      \<lparr>pstate = PROC_UNUSED, htas_info = None\<rparr>,
      \<lparr>pstate = PROC_OTHER, htas_info = None\<rparr>,
      \<lparr>pstate = PROC_READY, htas_info = None\<rparr>]"

definition lone_procs :: "process list" where
  "lone_procs =
     [\<lparr>pstate = PROC_UNUSED, htas_info = None\<rparr>,
      \<lparr>pstate = PROC_RUNNING, htas_info = None\<rparr>,
      \<lparr>pstate = PROC_OTHER, htas_info = None\<rparr>]"

definition idle_procs :: "process list" where
  "idle_procs =
     [\<lparr>pstate = PROC_UNUSED, htas_info = None\<rparr>,
      \<lparr>pstate = PROC_OTHER, htas_info = None\<rparr>]"

definition efficiency_on_node0 :: task_profile where
  "efficiency_on_node0 =
     \<lparr>intent = PROFILE_EFFICIENCY, primary_data_region = 0x1000, data_size = 64\<rparr>"

definition find_pid7 :: "u32 \<Rightarrow> nat option" where
  "find_pid7 pid = (if pid = 7 then Some 0 else None)"

definition one_proc :: "process list" where
  "one_proc = [\<lparr>pstate = PROC_READY, htas_info = None\<rparr>]"

section \<open>Workload simulator (kernel/sched/htas_benchmark.c)\<close>

definition SIM_TICK_US :: nat where
  "SIM_TICK_US = 1000"

definition SIM_TASK_COUNT :: nat where
  "SIM_TASK_COUNT = 8"

definition DYNAMIC_INFERENCE_WINDOW :: nat where
  "DYNAMIC_INFERENCE_WINDOW = 50"

definition DYNAMIC_LOAD_THRESHOLD :: nat where
  "DYNAMIC_LOAD_THRESHOLD = 25"

record sim_task =
  t_name :: string
  t_intent :: task_intent
  preferred_type :: cpu_type
  preferred_numa :: u8
  base_priority :: int
  duty_cycle :: u32
  active_ticks :: u32
  duty_phase :: u32
  period_ms :: u32
  work_ms :: u32
  work_remaining :: u32
  time_since_release :: u32
  waiting_since_ready :: u32
  ready :: bool
  selected_this_tick :: bool
  scheduled_this_tick :: bool
  last_scheduled_tick :: u32
  t_runtime_us :: u64
  t_switches :: u64
  t_numa_penalties :: u64
  wait_time :: u32
  priority_boost_aging :: int
  recent_cpu_ticks :: u32
  inferred_numa_node :: u8
  inferred_numa_locked :: bool

record intent_stat =
  runtime_us :: u64
  switches :: u64
  avg_latency_us :: u64
  max_jitter_us :: u64

text \<open>The array \<open>intent_stats[4]\<close> is indexed by the intent.\<close>

record scheduler_stats =
  total_ticks :: u64
  context_switches :: u64
  numa_penalties :: u64
  ecore_time_us :: u64
  pcore_time_us :: u64
  intent_stats :: "task_intent \<Rightarrow> intent_stat"
  total_power_consumption :: u64

record sim_context =
  tasks :: "sim_task list"
  last_task_on_cpu :: "int list"
  latency_total_us :: u64
  latency_samples :: u32
  latency_max_us :: u32
  tick :: u32
  rr_index :: int
  dynamic_stats :: scheduler_stats

definition zero_task :: sim_task where
  "zero_task =
     \<lparr>t_name = [], t_intent = PROFILE_PERFORMANCE, preferred_type = CPU_TYPE_PCORE,
      preferred_numa = 0, base_priority = 0, duty_cycle = 0, active_ticks = 0, duty_phase = 0,
      period_ms = 0, work_ms = 0, work_remaining = 0, time_since_release = 0,
      waiting_since_ready = 0, ready = False, selected_this_tick = False,
      scheduled_this_tick = False, last_scheduled_tick = 0, t_runtime_us = 0, t_switches = 0,
      t_numa_penalties = 0, wait_time = 0, priority_boost_aging = 0, recent_cpu_ticks = 0,
      inferred_numa_node = 0, inferred_numa_locked = False\<rparr>"

definition zero_intent_stat :: intent_stat where
  "zero_intent_stat = \<lparr>runtime_us = 0, switches = 0, avg_latency_us = 0, max_jitter_us = 0\<rparr>"

definition zero_stats :: scheduler_stats where
  "zero_stats =
     \<lparr>total_ticks = 0, context_switches = 0, numa_penalties = 0, ecore_time_us = 0,
      pcore_time_us = 0, intent_stats = (\<lambda>_. zero_intent_stat), total_power_consumption = 0\<rparr>"

text \<open>\<open>memset(stats, 0, sizeof(scheduler_stats_t))\<close>: every field of the record is overwritten.\<close>

definition memset_stats :: "scheduler_stats \<Rightarrow> scheduler_stats" where
  "memset_stats st =
     st\<lparr>total_ticks := 0, context_switches := 0, numa_penalties := 0, ecore_time_us := 0,
        pcore_time_us := 0, intent_stats := (\<lambda>_. zero_intent_stat),
        total_power_consumption := 0\<rparr>"

definition eff_names :: "string list" where
  "eff_names = [''EFFI0'', ''EFFI1'', ''EFFI2'', ''EFFI3'']"

definition eff_task :: "nat \<Rightarrow> sim_task" where
  "eff_task i =
     zero_task\<lparr>t_name := eff_names ! i, t_intent := PROFILE_EFFICIENCY,
               preferred_type := CPU_TYPE_ECORE, preferred_numa := 1, base_priority := 10,
               duty_cycle := 5, active_ticks := 1, inferred_numa_node := 0\<rparr>"

text \<open>
  \<open>sim_init_tasks\<close>: the context is zeroed, every CPU starts with no last task, and the
  eight tasks are assigned from compound literals (fields not named are zero).
\<close>

definition sim_init_tasks :: "sim_context \<Rightarrow> sim_context" where
  "sim_init_tasks ctx =
     (let ctx = ctx\<lparr>tasks := replicate SIM_TASK_COUNT zero_task,
                     last_task_on_cpu := replicate NUM_CPUS 0,
                     latency_total_us := 0, latency_samples := 0, latency_max_us := 0,
                     tick := 0, rr_index := 0, dynamic_stats := zero_stats\<rparr>;
          ctx = ctx\<lparr>last_task_on_cpu := map (\<lambda>cpu. -1) [0..<NUM_CPUS]\<rparr>;
          ctx = ctx\<lparr>tasks := (tasks ctx)[0 :=
                  zero_task\<lparr>t_name := ''PERF0'', t_intent := PROFILE_PERFORMANCE,
                            preferred_type := CPU_TYPE_PCORE, preferred_numa := 0,
                            base_priority := 12, inferred_numa_node := 0\<rparr>]\<rparr>;
          ctx = ctx\<lparr>tasks := (tasks ctx)[1 :=
                  zero_task\<lparr>t_name := ''PERF1'', t_intent := PROFILE_PERFORMANCE,
                            preferred_type := CPU_TYPE_PCORE, preferred_numa := 1,
                            base_priority := 11, inferred_numa_node := 0\<rparr>]\<rparr>;
          ctx = fold (\<lambda>i c. c\<lparr>tasks := (tasks c)[2 + i := eff_task i]\<rparr>) [0..<4] ctx;
          ctx = ctx\<lparr>tasks := (tasks ctx)[6 :=
                  zero_task\<lparr>t_name := ''LOW_LAT'', t_intent := PROFILE_LOW_LATENCY,
                            preferred_type := CPU_TYPE_PCORE, preferred_numa := 0,
                            base_priority := 10, period_ms := 16, work_ms := 2,
                            time_since_release := 16, inferred_numa_node := 0\<rparr>]\<rparr>;
          ctx = ctx\<lparr>tasks := (tasks ctx)[7 :=
                  zero_task\<lparr>t_name := ''NUMA'', t_intent := PROFILE_PERFORMANCE,
                            preferred_type := CPU_TYPE_ECORE, preferred_numa := 1,
                            base_priority := 10, inferred_numa_node := 0\<rparr>]\<rparr>
      in ctx)"

text \<open>\<open>sim_prepare_tick\<close>: the loop body, applied to every task of the array.\<close>

definition prepare_task :: "sim_task \<Rightarrow> sim_task" where
  "prepare_task task0 =
     (let task = task0\<lparr>selected_this_tick := False, scheduled_this_tick := False\<rparr>
      in if t_intent task = PROFILE_LOW_LATENCY then
           (if work_remaining task = 0 then
              (if time_since_release task < period_ms task
               then task\<lparr>time_since_release := time_since_release task + 1, ready := False\<rparr>
               else
                 (let task = (if work_remaining task = 0 \<and> \<not> ready task
                              then task\<lparr>work_remaining := work_ms task, waiting_since_ready := 0\<rparr>
                              else task)
                  in task\<lparr>ready := (work_remaining task > 0)\<rparr>))
            else task\<lparr>ready := True\<rparr>)
         else if duty_cycle task > 0 then
           task\<lparr>ready := (duty_phase task < active_ticks task),
                duty_phase := (duty_phase task + 1) mod duty_cycle task\<rparr>
         else task\<lparr>ready := True\<rparr>)"

definition sim_prepare_tick :: "sim_context \<Rightarrow> sim_context" where
  "sim_prepare_tick ctx = ctx\<lparr>tasks := map prepare_task (tasks ctx)\<rparr>"

text \<open>
  \<open>sim_select_task_round_robin\<close>: \<open>attempts\<close> counts up, the second number is how many
  attempts are left. \<open>rr_index\<close> is zeroed at start and only ever assigned a value
  modulo \<open>SIM_TASK_COUNT\<close>.
\<close>

fun rr_try :: "sim_context \<Rightarrow> nat \<Rightarrow> nat \<Rightarrow> sim_context \<times> int" where
  "rr_try ctx attempts 0 = (ctx, -1)"
| "rr_try ctx attempts (Suc n) =
     (let idx = nat ((rr_index ctx + int attempts) mod int SIM_TASK_COUNT);
          task = tasks ctx ! idx
      in if ready task \<and> \<not> selected_this_tick task
         then (ctx\<lparr>rr_index := (int idx + 1) mod int SIM_TASK_COUNT,
                   tasks := (tasks ctx)[idx := task\<lparr>selected_this_tick := True\<rparr>]\<rparr>, int idx)
         else rr_try ctx (Suc attempts) n)"

definition sim_select_task_round_robin :: "sim_context \<Rightarrow> sim_context \<times> int" where
  "sim_select_task_round_robin ctx = rr_try ctx 0 SIM_TASK_COUNT"

text \<open>
  The value an \<open>int\<close> of the kernel holds after a store: 32 bits, two's complement.
  The scores below are C \<open>int\<close>s, so every \<open>+=\<close> and every cast to \<open>int\<close> goes
  through it.
\<close>

definition int32 :: "int \<Rightarrow> int" where
  "int32 x = sint (word_of_int x :: 32 word)"

text \<open>The score \<open>sim_select_task_htas\<close> computes for one candidate on one CPU.\<close>

definition htas_score :: "sim_context \<Rightarrow> nat \<Rightarrow> sim_task \<Rightarrow> int" where
  "htas_score ctx cpu task =
     (let cpu_type = type (g_cpu_topology ! cpu);
          cpu_numa = numa_node (g_cpu_topology ! cpu);
          score = int32 (base_priority task);
          score = (if preferred_type task = CPU_TYPE_PCORE
                   then int32 (score + (if cpu_type = CPU_TYPE_PCORE then 12 else -8))
                   else if preferred_type task = CPU_TYPE_ECORE
                   then int32 (score + (if cpu_type = CPU_TYPE_ECORE then 12 else -6))
                   else score);
          score = (if unat (preferred_numa task) < NUM_NUMA_NODES
                   then int32 (score + (if cpu_numa = preferred_numa task then 8 else -6))
                   else score);
          score = (if t_intent task = PROFILE_LOW_LATENCY
                   then (let score = int32 (score + 15)
                         in if waiting_since_ready task > 0 then int32 (score + 15) else score)
                   else score);
          age = tick ctx - last_scheduled_tick task;
          score = int32 (score + int32 (uint (age div 4)));
          score = int32 (score + int32 (priority_boost_aging task))
      in score)"

text \<open>One iteration of the selection loop; the accumulator is \<open>(best_idx, best_score)\<close>.\<close>

definition htas_step :: "sim_context \<Rightarrow> nat \<Rightarrow> nat \<Rightarrow> int \<times> int \<Rightarrow> int \<times> int" where
  "htas_step ctx cpu i acc =
     (let task = tasks ctx ! i
      in if \<not> ready task \<or> selected_this_tick task then acc
         else (let score = htas_score ctx cpu task
               in if score > snd acc then (int i, score) else acc))"

definition mark_selected :: "sim_context \<Rightarrow> int \<Rightarrow> sim_context" where
  "mark_selected ctx best_idx =
     (if best_idx \<ge> 0
      then ctx\<lparr>tasks := (tasks ctx)[nat best_idx :=
                 (tasks ctx ! nat best_idx)\<lparr>selected_this_tick := True\<rparr>]\<rparr>
      else ctx)"

definition sim_select_task_htas :: "sim_context \<Rightarrow> nat \<Rightarrow> sim_context \<times> int" where
  "sim_select_task_htas ctx cpu =
     (let best_idx = fst (fold (htas_step ctx cpu) [0..<SIM_TASK_COUNT] (-1, -1000))
      in (mark_selected ctx best_idx, best_idx))"

definition dynamic_score :: "sim_context \<Rightarrow> nat \<Rightarrow> sim_task \<Rightarrow> int" where
  "dynamic_score ctx cpu task =
     (let cpu_type = type (g_cpu_topology ! cpu);
          cpu_numa = numa_node (g_cpu_topology ! cpu);
          score = int32 (base_priority task);
          score = (if unat (recent_cpu_ticks task) > DYNAMIC_LOAD_THRESHOLD
                   then int32 (score + (if cpu_type = CPU_TYPE_PCORE then 12 else -8))
                   else int32 (score + (if cpu_type = CPU_TYPE_ECORE then 12 else -6)));
          score = int32 (score + (if cpu_numa = inferred_numa_node task then 8 else -6));
          score = (if waiting_since_ready task > 0 then int32 (score + 5) else score);
          age = tick ctx - last_scheduled_tick task;
          score = int32 (score + int32 (uint (age div 4)));
          score = int32 (score + int32 (priority_boost_aging task))
      in score)"

definition dynamic_step :: "sim_context \<Rightarrow> nat \<Rightarrow> nat \<Rightarrow> int \<times> int \<Rightarrow> int \<times> int" where
  "dynamic_step ctx cpu i acc =
     (let task = tasks ctx ! i
      in if \<not> ready task \<or> selected_this_tick task then acc
         else (let score = dynamic_score ctx cpu task
               in if score > snd acc then (int i, score) else acc))"

definition sim_select_task_dynamic :: "sim_context \<Rightarrow> nat \<Rightarrow> sim_context \<times> int" where
  "sim_select_task_dynamic ctx cpu =
     (let best_idx = fst (fold (dynamic_step ctx cpu) [0..<SIM_TASK_COUNT] (-1, -1000))
      in (mark_selected ctx best_idx, best_idx))"

text \<open>
  \<open>sim_update_task_stats\<close>, statement by statement. \<open>task\<close> points into \<open>ctx->tasks\<close>:
  the model works on the element and stores it back at the end. The blocks of the
  source that touch one object only are the functions defined first.
\<close>

definition bump_intent_switches :: "task_intent \<Rightarrow> scheduler_stats \<Rightarrow> scheduler_stats" where
  "bump_intent_switches it stats =
     stats\<lparr>intent_stats := (intent_stats stats)
        (it := (intent_stats stats it)\<lparr>switches := switches (intent_stats stats it) + 1\<rparr>)\<rparr>"

definition add_intent_runtime :: "task_intent \<Rightarrow> scheduler_stats \<Rightarrow> scheduler_stats" where
  "add_intent_runtime it stats =
     stats\<lparr>intent_stats := (intent_stats stats)
        (it := (intent_stats stats it)
           \<lparr>runtime_us := runtime_us (intent_stats stats it) + of_nat SIM_TICK_US\<rparr>)\<rparr>"

text \<open>Aging reset, the scheduled mark, the load counter and the sticky NUMA inference.\<close>

definition reset_and_infer :: "u8 \<Rightarrow> sim_task \<Rightarrow> sim_task" where
  "reset_and_infer cpu_numa task0 =
     (let task = task0\<lparr>wait_time := 0\<rparr>;
          task = task\<lparr>priority_boost_aging := 0\<rparr>;
          task = task\<lparr>scheduled_this_tick := True\<rparr>;
          task = task\<lparr>recent_cpu_ticks := recent_cpu_ticks task + 1\<rparr>
      in if \<not> inferred_numa_locked task then
           (if cpu_numa = preferred_numa task
            then task\<lparr>inferred_numa_node := preferred_numa task, inferred_numa_locked := True\<rparr>
            else task)
         else task)"

text \<open>Power and core residency of a busy CPU.\<close>

definition account_power :: "cpu_type \<Rightarrow> scheduler_stats \<Rightarrow> scheduler_stats" where
  "account_power cpu_type stats0 =
     (let stats = stats0\<lparr>total_power_consumption := total_power_consumption stats0
                          + (if cpu_type = CPU_TYPE_PCORE then 120 else 70)\<rparr>
      in if cpu_type = CPU_TYPE_PCORE
         then stats\<lparr>pcore_time_us := pcore_time_us stats + of_nat SIM_TICK_US\<rparr>
         else stats\<lparr>ecore_time_us := ecore_time_us stats + of_nat SIM_TICK_US\<rparr>)"

text \<open>The latency sample taken on the first tick of a released job.\<close>

definition sample_latency :: "sim_task \<Rightarrow> sim_context \<Rightarrow> sim_context" where
  "sample_latency task ctx0 =
     (if t_intent task = PROFILE_LOW_LATENCY \<and> work_remaining task = work_ms task
      then
        (let jitter_us = waiting_since_ready task * of_nat SIM_TICK_US;
             ctx = ctx0\<lparr>latency_total_us := latency_total_us ctx0 + ucast jitter_us\<rparr>;
             ctx = ctx\<lparr>latency_samples := latency_samples ctx + 1\<rparr>
         in if jitter_us > latency_max_us ctx
            then ctx\<lparr>latency_max_us := jitter_us\<rparr> else ctx)
      else ctx0)"

text \<open>One unit of the job's work is done.\<close>

definition consume_work :: "sim_task \<Rightarrow> sim_task" where
  "consume_work task0 =
     (if work_remaining task0 > 0 then
        (let task = task0\<lparr>work_remaining := work_remaining task0 - 1\<rparr>
         in if work_remaining task = 0
            then task\<lparr>time_since_release := 0, ready := False\<rparr>
            else task)
      else task0)"

definition sim_update_task_stats ::
  "sim_context \<Rightarrow> scheduler_stats \<Rightarrow> nat \<Rightarrow> int \<Rightarrow> sim_context \<times> scheduler_stats" where
  "sim_update_task_stats ctx0 stats0 cpu task_index =
     (let cpu_type = type (g_cpu_topology ! cpu);
          cpu_numa = numa_node (g_cpu_topology ! cpu)
      in if task_index < 0 then
           (ctx0, stats0\<lparr>total_power_consumption := total_power_consumption stats0
                          + (if cpu_type = CPU_TYPE_PCORE then 30 else 20)\<rparr>)
         else
           (let task = reset_and_infer cpu_numa (tasks ctx0 ! nat task_index);
                switched = (last_task_on_cpu ctx0 ! cpu \<noteq> task_index);
                stats = (if switched
                         then stats0\<lparr>context_switches := context_switches stats0 + 1\<rparr>
                         else stats0);
                task = (if switched then task\<lparr>t_switches := t_switches task + 1\<rparr> else task);
                stats = (if switched then bump_intent_switches (t_intent task) stats else stats);
                ctx = (if switched
                       then ctx0\<lparr>last_task_on_cpu := (last_task_on_cpu ctx0)[cpu := task_index]\<rparr>
                       else ctx0);
                stats = account_power cpu_type stats;
                task = task\<lparr>t_runtime_us := t_runtime_us task + of_nat SIM_TICK_US\<rparr>;
                stats = add_intent_runtime (t_intent task) stats;
                penalty = (unat (preferred_numa task) < NUM_NUMA_NODES
                           \<and> preferred_numa task \<noteq> cpu_numa);
                stats = (if penalty
                         then stats\<lparr>numa_penalties := numa_penalties stats + 1\<rparr> else stats);
                task = (if penalty
                        then task\<lparr>t_numa_penalties := t_numa_penalties task + 1\<rparr> else task);
                ctx = sample_latency task ctx;
                task = consume_work task;
                task = task\<lparr>last_scheduled_tick := tick ctx\<rparr>
            in (ctx\<lparr>tasks := (tasks ctx)[nat task_index := task]\<rparr>, stats)))"

text \<open>\<open>sim_finalize_tick\<close>: the loop body, applied to every task of the array.\<close>

definition finalize_task :: "sim_task \<Rightarrow> sim_task" where
  "finalize_task task0 =
     (let task = (if t_intent task0 = PROFILE_LOW_LATENCY then
                    (if work_remaining task0 > 0 \<and> \<not> scheduled_this_tick task0
                     then task0\<lparr>waiting_since_ready := waiting_since_ready task0 + 1\<rparr>
                     else if work_remaining task0 = 0
                     then task0\<lparr>waiting_since_ready := 0\<rparr>
                     else task0)
                  else task0);
          task = (if ready task \<and> \<not> scheduled_this_tick task then
                    (let task = task\<lparr>wait_time := wait_time task + 1\<rparr>
                     in if unat (wait_time task) > AGING_THRESHOLD
                        then task\<lparr>priority_boost_aging := AGING_PRIORITY_BOOST\<rparr>
                        else task)
                  else task);
          task = (if recent_cpu_ticks task > 0
                  then task\<lparr>recent_cpu_ticks := recent_cpu_ticks task - 1\<rparr>
                  else task)
      in task\<lparr>selected_this_tick := False, scheduled_this_tick := False\<rparr>)"

definition sim_finalize_tick :: "sim_context \<Rightarrow> sim_context" where
  "sim_finalize_tick ctx = ctx\<lparr>tasks := map finalize_task (tasks ctx)\<rparr>"

text \<open>The policy dispatch of \<open>simulate_workload\<close> for one CPU.\<close>

definition select_task :: "scheduler_type \<Rightarrow> sim_context \<Rightarrow> nat \<Rightarrow> sim_context \<times> int" where
  "select_task ty ctx cpu =
     (if ty = SCHED_HTAS then sim_select_task_htas ctx cpu
      else if ty = SCHED_BASELINE then sim_select_task_round_robin ctx
      else sim_select_task_dynamic ctx cpu)"

text \<open>The first CPU loop: it fills \<open>assigned[]\<close> in ascending CPU order.\<close>

fun select_cpus :: "scheduler_type \<Rightarrow> nat list \<Rightarrow> sim_context \<Rightarrow> sim_context \<times> int list" where
  "select_cpus ty [] ctx = (ctx, [])"
| "select_cpus ty (cpu # cpus) ctx =
     (let sel = select_task ty ctx cpu;
          rest = select_cpus ty cpus (fst sel)
      in (fst rest, snd sel # snd rest))"

text \<open>The second CPU loop: statistics for \<open>assigned[cpu]\<close>, CPU by CPU.\<close>

fun update_cpus :: "nat \<Rightarrow> int list \<Rightarrow> sim_context \<times> scheduler_stats
                     \<Rightarrow> sim_context \<times> scheduler_stats" where
  "update_cpus cpu [] cs = cs"
| "update_cpus cpu (a # as) cs =
     update_cpus (Suc cpu) as (sim_update_task_stats (fst cs) (snd cs) cpu a)"

text \<open>The assignment of the tick that starts in context \<open>ctx\<close>.\<close>

definition assigned_of :: "scheduler_type \<Rightarrow> sim_context \<Rightarrow> int list" where
  "assigned_of ty ctx = snd (select_cpus ty [0..<NUM_CPUS] (sim_prepare_tick ctx))"

text \<open>One iteration of the tick loop of \<open>simulate_workload\<close>, without the increment.\<close>

definition sim_tick :: "scheduler_type \<Rightarrow> sim_context \<times> scheduler_stats
                         \<Rightarrow> sim_context \<times> scheduler_stats" where
  "sim_tick ty cs =
     (let stats = (snd cs)\<lparr>total_ticks := total_ticks (snd cs) + 1\<rparr>;
          ctx = sim_prepare_tick (fst cs);
          sel = select_cpus ty [0..<NUM_CPUS] ctx;
          upd = update_cpus 0 (snd sel) (fst sel, stats)
      in (sim_finalize_tick (fst upd), snd upd))"

text \<open>The state after \<open>n\<close> iterations of the loop; \<open>ctx.tick\<close> counts them.\<close>

primrec sim_run :: "scheduler_type \<Rightarrow> nat \<Rightarrow> sim_context \<times> scheduler_stats
                      \<Rightarrow> sim_context \<times> scheduler_stats" where
  "sim_run ty 0 cs = cs"
| "sim_run ty (Suc n) cs =
     (let cs' = sim_tick ty (sim_run ty n cs)
      in ((fst cs')\<lparr>tick := tick (fst cs') + 1\<rparr>, snd cs'))"

text \<open>
  \<open>simulate_workload\<close>. \<open>ctx0\<close> is the content of the uninitialised local \<open>ctx\<close> and
  \<open>stats0\<close> the previous content of the output record. The loop runs while
  \<open>ctx.tick < duration_ms\<close>, that is \<open>duration_ms\<close> times.
\<close>

definition write_latency :: "sim_context \<Rightarrow> scheduler_stats \<Rightarrow> scheduler_stats" where
  "write_latency ctx stats =
     (let stats = (if latency_samples ctx > 0
                   then stats\<lparr>intent_stats := (intent_stats stats)
                          (PROFILE_LOW_LATENCY := (intent_stats stats PROFILE_LOW_LATENCY)
                             \<lparr>avg_latency_us := latency_total_us ctx div ucast (latency_samples ctx)\<rparr>)\<rparr>
                   else stats\<lparr>intent_stats := (intent_stats stats)
                          (PROFILE_LOW_LATENCY := (intent_stats stats PROFILE_LOW_LATENCY)
                             \<lparr>avg_latency_us := 0\<rparr>)\<rparr>)
      in stats\<lparr>intent_stats := (intent_stats stats)
                 (PROFILE_LOW_LATENCY := (intent_stats stats PROFILE_LOW_LATENCY)
                    \<lparr>max_jitter_us := ucast (latency_max_us ctx)\<rparr>)\<rparr>)"

definition sim_start :: "sim_context \<Rightarrow> scheduler_stats \<Rightarrow> sim_context \<times> scheduler_stats" where
  "sim_start ctx0 stats0 = ((sim_init_tasks ctx0)\<lparr>tick := 0\<rparr>, memset_stats stats0)"

definition simulate_workload ::
  "u32 \<Rightarrow> scheduler_type \<Rightarrow> scheduler_stats \<Rightarrow> sim_context \<Rightarrow> scheduler_stats" where
  "simulate_workload duration_ms ty stats0 ctx0 =
     (let cs = sim_run ty (unat duration_ms) (sim_start ctx0 stats0)
      in write_latency (fst cs) (snd cs))"

definition garbage_ctx :: sim_context where
  "garbage_ctx = \<lparr>tasks = [], last_task_on_cpu = [7], latency_total_us = 3, latency_samples = 1,
                   latency_max_us = 9, tick = 55, rr_index = -4, dynamic_stats = zero_stats\<rparr>"

definition start0 :: "sim_context \<times> scheduler_stats" where
  "start0 = sim_start garbage_ctx zero_stats"

text \<open>The sum of the per-intent runtimes of a statistics record.\<close>

definition intent_runtime_sum :: "scheduler_stats \<Rightarrow> u64" where
  "intent_runtime_sum st =
     runtime_us (intent_stats st PROFILE_PERFORMANCE)
   + runtime_us (intent_stats st PROFILE_EFFICIENCY)
   + runtime_us (intent_stats st PROFILE_LOW_LATENCY)
   + runtime_us (intent_stats st PROFILE_DEFAULT)"

definition runtime_balanced :: "scheduler_stats \<Rightarrow> bool" where
  "runtime_balanced st \<longleftrightarrow> intent_runtime_sum st = pcore_time_us st + ecore_time_us st"

text \<open>The trace of a run that starts in \<open>cs0\<close>: what tick \<open>k\<close> assigns to the CPUs.\<close>

definition assigned_at :: "scheduler_type \<Rightarrow> sim_context \<times> scheduler_stats \<Rightarrow> nat \<Rightarrow> int list" where
  "assigned_at ty cs0 k = assigned_of ty (fst (sim_run ty k cs0))"

text \<open>The task CPU \<open>c\<close> ran most recently before tick \<open>k\<close>, idle ticks skipped; -1 if none.\<close>

primrec last_task_before ::
  "scheduler_type \<Rightarrow> sim_context \<times> scheduler_stats \<Rightarrow> nat \<Rightarrow> nat \<Rightarrow> int" where
  "last_task_before ty cs0 c 0 = -1"
| "last_task_before ty cs0 c (Suc k) =
     (if assigned_at ty cs0 k ! c < 0 then last_task_before ty cs0 c k
      else assigned_at ty cs0 k ! c)"

text \<open>Cell \<open>(c, k)\<close> holds a task, and not the one CPU \<open>c\<close> ran last.\<close>

definition switch_cell ::
  "scheduler_type \<Rightarrow> sim_context \<times> scheduler_stats \<Rightarrow> nat \<Rightarrow> nat \<Rightarrow> bool" where
  "switch_cell ty cs0 k c \<longleftrightarrow>
     assigned_at ty cs0 k ! c \<ge> 0 \<and> assigned_at ty cs0 k ! c \<noteq> last_task_before ty cs0 c k"

primrec switch_cells :: "scheduler_type \<Rightarrow> sim_context \<times> scheduler_stats \<Rightarrow> nat \<Rightarrow> nat" where
  "switch_cells ty cs0 0 = 0"
| "switch_cells ty cs0 (Suc n) =
     switch_cells ty cs0 n + length (filter (switch_cell ty cs0 n) [0..<NUM_CPUS])"

text \<open>
  Cell \<open>(c, k)\<close> differs from the assignment of the previous tick, an idle CPU counting
  as the assignment -1 (also before the first tick).
\<close>

definition changed_cell ::
  "scheduler_type \<Rightarrow> sim_context \<times> scheduler_stats \<Rightarrow> nat \<Rightarrow> nat \<Rightarrow> bool" where
  "changed_cell ty cs0 k c \<longleftrightarrow>
     assigned_at ty cs0 k ! c \<noteq> (if k = 0 then -1 else assigned_at ty cs0 (k - 1) ! c)"

primrec changed_cells :: "scheduler_type \<Rightarrow> sim_context \<times> scheduler_stats \<Rightarrow> nat \<Rightarrow> nat" where
  "changed_cells ty cs0 0 = 0"
| "changed_cells ty cs0 (Suc n) =
     changed_cells ty cs0 n + length (filter (changed_cell ty cs0 n) [0..<NUM_CPUS])"




text \<open>The fields of a task the aging of \<open>sim_finalize_tick\<close> reads.\<close>

definition aging_view :: "sim_task \<Rightarrow> bool \<times> bool \<times> u32 \<times> int" where
  "aging_view t = (ready t, scheduled_this_tick t, wait_time t, priority_boost_aging t)"

text \<open>A task as \<open>sim_update_task_stats\<close> leaves it: marked scheduled, aging cleared.\<close>

definition has_run :: "sim_task \<Rightarrow> bool" where
  "has_run t \<longleftrightarrow> scheduled_this_tick t \<and> wait_time t = 0 \<and> priority_boost_aging t = 0"

text \<open>Every task that has waited beyond the threshold carries the aging boost.\<close>

definition aging_inv :: "sim_context \<Rightarrow> bool" where
  "aging_inv ctx \<longleftrightarrow>
     length (tasks ctx) = SIM_TASK_COUNT
   \<and> (\<forall>i<SIM_TASK_COUNT. unat (wait_time (tasks ctx ! i)) > AGING_THRESHOLD
          \<longrightarrow> priority_boost_aging (tasks ctx ! i) = AGING_PRIORITY_BOOST)"

text \<open>The start context with task 5 at the aging threshold.\<close>

definition waiting_ctx :: sim_context where
  "waiting_ctx = (fst start0)\<lparr>tasks := (tasks (fst start0))
                    [5 := (tasks (fst start0) ! 5)\<lparr>wait_time := 100\<rparr>]\<rparr>"

text \<open>
  What every run of the fixed workload keeps in each task: the base priority that
  \<open>sim_init_tasks\<close> gave (10, 11 or 12; nothing writes it again) and an aging boost
  between 0 and AGING_PRIORITY_BOOST.
\<close>

definition task_priorities :: "sim_task \<Rightarrow> bool" where
  "task_priorities t \<longleftrightarrow>
     10 \<le> base_priority t \<and> base_priority t \<le> 12
   \<and> 0 \<le> priority_boost_aging t \<and> priority_boost_aging t \<le> AGING_PRIORITY_BOOST"



text \<open>Comparison of two READY candidates as \<open>select_next\<close> makes it.\<close>

definition beats :: "kthread list \<Rightarrow> nat \<Rightarrow> nat \<Rightarrow> bool" where
  "beats ts b j \<longleftrightarrow>
     uint (priority (ts ! b)) < uint (priority (ts ! j))
   \<or> (uint (priority (ts ! b)) = uint (priority (ts ! j))
       \<and> uint (wait_ticks (ts ! b)) > uint (wait_ticks (ts ! j)))"

definition ties :: "kthread list \<Rightarrow> nat \<Rightarrow> nat \<Rightarrow> bool" where
  "ties ts b j \<longleftrightarrow>
     uint (priority (ts ! b)) = uint (priority (ts ! j))
   \<and> uint (wait_ticks (ts ! b)) = uint (wait_ticks (ts ! j))"

text \<open>Loop invariant of \<open>select_next\<close> after the slots below \<open>n\<close>.\<close>

definition sel_inv :: "kthread list \<Rightarrow> nat \<Rightarrow> int \<times> int \<times> int \<Rightarrow> bool" where
  "sel_inv ts n acc \<longleftrightarrow>
     (case acc of (b, bp, bw) \<Rightarrow>
        (b = -1 \<and> (\<forall>j. 1 \<le> j \<and> j < n \<longrightarrow> state (ts ! j) \<noteq> T_READY))
      \<or> (1 \<le> b \<and> b < int n \<and> state (ts ! nat b) = T_READY
          \<and> bp = uint (priority (ts ! nat b)) \<and> bw = uint (wait_ticks (ts ! nat b))
          \<and> (\<forall>j. 1 \<le> j \<and> j < n \<and> state (ts ! j) = T_READY
                 \<longrightarrow> beats ts (nat b) j \<or> ties ts (nat b) j)
          \<and> (\<forall>j. 1 \<le> j \<and> j < nat b \<and> state (ts ! j) = T_READY \<longrightarrow> beats ts (nat b) j)))"

text \<open>A table with two created threads, the second raised to REALTIME.\<close>

definition two_threads :: sched_state where
  "two_threads =
     snd (sched_set_priority 2 0
       (snd (kthread_create 4096 (Some ''b'')
         (snd (kthread_create 8192 (Some ''a'') sched_init)))))"

text \<open>What one pass of \<open>apply_aging\<close> does to a single slot.\<close>

definition aged :: "kthread \<Rightarrow> kthread" where
  "aged t =
     (if state t = T_READY \<and> unat (wait_ticks t) \<ge> AGING_THRESHOLD_KT
         \<and> uint (priority t) > SCHED_PRIORITY_REALTIME
      then t\<lparr>priority := priority t - 1, wait_ticks := 0,
             slice_left := word_of_int (priority_quantum ! unat (priority t - 1))\<rparr>
      else t)"

text \<open>What the first loop of \<open>sched_tick\<close> does to slot \<open>i\<close>.\<close>

definition waited :: "int \<Rightarrow> nat \<Rightarrow> kthread \<Rightarrow> kthread" where
  "waited cur i t =
     (if int i \<noteq> cur \<and> state t = T_READY then t\<lparr>wait_ticks := wait_ticks t + 1\<rparr> else t)"

text \<open>The table of \<open>sched_tick\<close> after the wait loop, the slice decrement and the aging.\<close>

definition tick_aged :: "sched_state \<Rightarrow> kthread list" where
  "tick_aged s =
     (let cur = nat (current s);
          ts = fold (wait_step (current s)) [1..<MAX_THREADS] (th s);
          ts = (if slice_left (ts ! cur) > 0
                then ts[cur := (ts ! cur)\<lparr>slice_left := slice_left (ts ! cur) - 1\<rparr>]
                else ts)
      in apply_aging ts)"

text \<open>
  Consistency of the scheduler state: 16 slots, \<open>current\<close> addresses the RUNNING slot,
  priorities are one of the four levels, and a READY thread in slots 1..15 below
  REALTIME has not yet reached the aging threshold (aging runs right after every
  increment of \<open>wait_ticks\<close>).
\<close>

definition sched_inv :: "sched_state \<Rightarrow> bool" where
  "sched_inv s \<longleftrightarrow>
     length (th s) = MAX_THREADS
   \<and> 0 \<le> current s \<and> current s < int MAX_THREADS
   \<and> state (th s ! nat (current s)) = T_RUNNING
   \<and> (\<forall>i. i < MAX_THREADS \<longrightarrow> unat (priority (th s ! i)) < 4)
   \<and> (\<forall>i. 1 \<le> i \<and> i < MAX_THREADS \<and> state (th s ! i) = T_READY \<and> priority (th s ! i) \<noteq> 0
          \<longrightarrow> unat (wait_ticks (th s ! i)) < AGING_THRESHOLD_KT)"

text \<open>Slot \<open>i\<close> is READY now and after each of the next \<open>n\<close> ticks.\<close>

primrec ready_through :: "nat \<Rightarrow> nat \<Rightarrow> sched_state \<Rightarrow> bool" where
  "ready_through i 0 s = (state (th s ! i) = T_READY)"
| "ready_through i (Suc n) s = (state (th s ! i) = T_READY \<and> ready_through i n (sched_tick s))"

text \<open>Concrete scheduler states used to evaluate the model.\<close>

definition three_threads :: sched_state where
  "three_threads =
     snd (kthread_create 4096 (Some ''c'')
       (snd (kthread_create 4096 (Some ''b'')
         (snd (kthread_create 8192 (Some ''a'') sched_init)))))"

definition starved :: sched_state where
  "starved =
     sched_yield (snd (sched_set_priority 3 3
       (snd (sched_set_priority 2 0 (snd (sched_set_priority 1 0 three_threads))))))"

text \<open>Ticks a waiting thread still needs, at most, before it is REALTIME.\<close>

definition prio_potential :: "kthread \<Rightarrow> nat" where
  "prio_potential t =
     (if priority t = 0 then 0 else 32 * unat (priority t) - unat (wait_ticks t))"

definition boot_yielded :: sched_state where
  "boot_yielded = sched_yield (snd (kthread_create 8192 (Some ''a'') sched_init))"

section \<open>Properties of the kernel thread scheduler\<close>

lemma length_refill_slice [simp]: "length (refill_slice tid ts) = length ts"
  by (simp add: refill_slice_def)

lemma nth_refill_slice_other:
  "j \<noteq> nat tid \<Longrightarrow> refill_slice tid ts ! j = ts ! j"
  by (simp add: refill_slice_def)

text \<open>
  C10. \<open>sched_set_priority\<close> returns -1 and changes nothing when the pid is outside
  0..15, the priority is outside 0..3 or the slot is UNUSED; otherwise it returns 0,
  stores the priority, clears \<open>wait_ticks\<close>, refills the slice with the quantum of the
  new priority and leaves every other slot alone.
\<close>

theorem sched_set_priority_spec:
  assumes len: "length (th s) = MAX_THREADS"
  shows "(pid < 0 \<or> pid \<ge> 16 \<or> prio < 0 \<or> prio \<ge> 4 \<or> state (th s ! nat pid) = T_UNUSED
            \<longrightarrow> sched_set_priority pid prio s = (-1, s))
       \<and> (0 \<le> pid \<and> pid < 16 \<and> 0 \<le> prio \<and> prio < 4 \<and> state (th s ! nat pid) \<noteq> T_UNUSED
            \<longrightarrow> (case sched_set_priority pid prio s of (rc, s') \<Rightarrow>
                   rc = 0 \<and> current s' = current s \<and> length (th s') = length (th s)
                 \<and> th s' ! nat pid = (th s ! nat pid)
                      \<lparr>priority := word_of_int prio,
                       slice_left := word_of_int (priority_quantum ! nat prio),
                       wait_ticks := 0\<rparr>
                 \<and> uint (priority (th s' ! nat pid)) = prio
                 \<and> (\<forall>j. j \<noteq> nat pid \<longrightarrow> th s' ! j = th s ! j)))"
proof (intro conjI impI)
  assume "pid < 0 \<or> pid \<ge> 16 \<or> prio < 0 \<or> prio \<ge> 4 \<or> state (th s ! nat pid) = T_UNUSED"
  then show "sched_set_priority pid prio s = (-1, s)"
    by (auto simp: sched_set_priority_def MAX_THREADS_def SCHED_PRIORITY_REALTIME_def
        SCHED_PRIORITY_LEVELS_def)
next
  assume ok: "0 \<le> pid \<and> pid < 16 \<and> 0 \<le> prio \<and> prio < 4 \<and> state (th s ! nat pid) \<noteq> T_UNUSED"
  then have p: "nat pid < length (th s)" using len by (auto simp: MAX_THREADS_def)
  have u: "uint (word_of_int prio :: u8) = prio"
    using ok by (simp add: uint_word_of_int)
  have un: "unat (word_of_int prio :: u8) = nat prio"
    using u by (simp add: unat_eq_nat_uint)
  show "case sched_set_priority pid prio s of (rc, s') \<Rightarrow>
                   rc = 0 \<and> current s' = current s \<and> length (th s') = length (th s)
                 \<and> th s' ! nat pid = (th s ! nat pid)
                      \<lparr>priority := word_of_int prio,
                       slice_left := word_of_int (priority_quantum ! nat prio),
                       wait_ticks := 0\<rparr>
                 \<and> uint (priority (th s' ! nat pid)) = prio
                 \<and> (\<forall>j. j \<noteq> nat pid \<longrightarrow> th s' ! j = th s ! j)"
    using ok p u un
    by (simp add: sched_set_priority_def MAX_THREADS_def SCHED_PRIORITY_REALTIME_def
        SCHED_PRIORITY_LEVELS_def refill_slice_def Let_def)
qed

theorem sched_set_priority_spec_witness:
  "length (th two_threads) = MAX_THREADS
   \<and> sched_set_priority 16 1 two_threads = (-1, two_threads)
   \<and> sched_set_priority 1 4 two_threads = (-1, two_threads)
   \<and> sched_set_priority 5 1 two_threads = (-1, two_threads)
   \<and> fst (sched_set_priority 1 3 two_threads) = 0
   \<and> uint (priority (th (snd (sched_set_priority 1 3 two_threads)) ! 1)) = 3"
proof -
  have l: "length (th two_threads) = MAX_THREADS" by code_simp
  have u: "state (th two_threads ! nat 5) = T_UNUSED" by code_simp
  have r: "state (th two_threads ! nat 1) \<noteq> T_UNUSED" by code_simp
  show ?thesis
    using sched_set_priority_spec [OF l, of 16 1] sched_set_priority_spec [OF l, of 1 4]
      sched_set_priority_spec [OF l, of 5 1] sched_set_priority_spec [OF l, of 1 3] u r l
    by (auto split: prod.splits)
qed

lemma sel_inv_step:
  assumes "sel_inv ts n acc" "1 \<le> n"
  shows "sel_inv ts (Suc n) (select_step ts n acc)"
proof -
  obtain b bp bw where acc: "acc = (b, bp, bw)" by (cases acc)
  show ?thesis
  proof (cases "state (ts ! n) = T_READY")
    case False
    then have "select_step ts n acc = acc" by (simp add: select_step_def acc)
    moreover have "sel_inv ts (Suc n) acc"
      using assms False unfolding sel_inv_def acc
      by (auto simp: less_Suc_eq)
    ultimately show ?thesis by simp
  next
    case True
    show ?thesis
      using assms True unfolding sel_inv_def acc select_step_def beats_def ties_def
      by (auto simp: less_Suc_eq Let_def)
  qed
qed

lemma sel_inv_fold:
  "sel_inv ts (Suc n) (fold (select_step ts) [1..<Suc n] (-1, SCHED_PRIORITY_LEVELS, -1))"
proof (induction n)
  case 0
  show ?case by (simp add: sel_inv_def)
next
  case (Suc n)
  have "fold (select_step ts) [1..<Suc (Suc n)] (-1, SCHED_PRIORITY_LEVELS, -1)
        = select_step ts (Suc n) (fold (select_step ts) [1..<Suc n] (-1, SCHED_PRIORITY_LEVELS, -1))"
    by simp
  then show ?case using sel_inv_step [OF Suc.IH] by simp
qed

lemma select_next_inv:
  "sel_inv ts 16 (select_next ts,
     fst (snd (fold (select_step ts) [1..<16] (-1, SCHED_PRIORITY_LEVELS, -1))),
     snd (snd (fold (select_step ts) [1..<16] (-1, SCHED_PRIORITY_LEVELS, -1))))"
  using sel_inv_fold [of ts 15] by (simp add: select_next_def MAX_THREADS_def)

lemma select_next_range: "select_next ts = -1 \<or> (1 \<le> select_next ts \<and> select_next ts < 16)"
  using select_next_inv [of ts] unfolding sel_inv_def by auto

lemma select_next_ready:
  "select_next ts \<noteq> -1 \<Longrightarrow> state (ts ! nat (select_next ts)) = T_READY"
  using select_next_inv [of ts] unfolding sel_inv_def by auto

lemma select_next_none:
  "select_next ts = -1 \<longleftrightarrow> (\<forall>j. 1 \<le> j \<and> j < 16 \<longrightarrow> state (ts ! j) \<noteq> T_READY)"
proof
  assume "select_next ts = -1"
  then show "\<forall>j. 1 \<le> j \<and> j < 16 \<longrightarrow> state (ts ! j) \<noteq> T_READY"
    using select_next_inv [of ts] unfolding sel_inv_def by auto
next
  assume a: "\<forall>j. 1 \<le> j \<and> j < 16 \<longrightarrow> state (ts ! j) \<noteq> T_READY"
  show "select_next ts = -1"
  proof (rule ccontr)
    assume n: "select_next ts \<noteq> -1"
    then have "1 \<le> nat (select_next ts) \<and> nat (select_next ts) < 16"
      using select_next_range [of ts] by auto
    then show False using a select_next_ready [OF n] by blast
  qed
qed

text \<open>
  C8. When some slot in 1..15 is READY, \<open>select_next\<close> returns a READY slot in 1..15
  that has the lowest priority number, among those the greatest \<open>wait_ticks\<close>, and
  among those the lowest index; when no slot in 1..15 is READY it returns -1.
\<close>

theorem select_next_spec:
  "(if \<exists>i. 1 \<le> i \<and> i < 16 \<and> state (ts ! i) = T_READY
    then 1 \<le> select_next ts \<and> select_next ts < 16
       \<and> state (ts ! nat (select_next ts)) = T_READY
       \<and> (\<forall>j. 1 \<le> j \<and> j < 16 \<and> state (ts ! j) = T_READY \<longrightarrow>
             uint (priority (ts ! nat (select_next ts))) < uint (priority (ts ! j))
           \<or> (uint (priority (ts ! nat (select_next ts))) = uint (priority (ts ! j))
              \<and> (uint (wait_ticks (ts ! nat (select_next ts))) > uint (wait_ticks (ts ! j))
                 \<or> (uint (wait_ticks (ts ! nat (select_next ts))) = uint (wait_ticks (ts ! j))
                    \<and> nat (select_next ts) \<le> j))))
    else select_next ts = -1)"
proof -
  obtain b bp bw where f: "fold (select_step ts) [1..<Suc 15] (-1, SCHED_PRIORITY_LEVELS, -1) = (b, bp, bw)"
    by (cases "fold (select_step ts) [1..<Suc 15] (-1, SCHED_PRIORITY_LEVELS, -1)")
  have sn: "select_next ts = b" using f by (simp add: select_next_def MAX_THREADS_def)
  have inv: "sel_inv ts (Suc 15) (b, bp, bw)" using sel_inv_fold [of ts 15] f by simp
  show ?thesis
  proof (cases "\<exists>i. 1 \<le> i \<and> i < 16 \<and> state (ts ! i) = T_READY")
    case False
    then show ?thesis using inv unfolding sn sel_inv_def by auto
  next
    case True
    then have nb: "b \<noteq> -1" using inv unfolding sel_inv_def by auto
    have "\<And>j. 1 \<le> j \<Longrightarrow> j < 16 \<Longrightarrow> state (ts ! j) = T_READY \<Longrightarrow> ties ts (nat b) j \<Longrightarrow> nat b \<le> j"
    proof (rule ccontr)
      fix j assume j: "1 \<le> j" "j < 16" "state (ts ! j) = T_READY" "ties ts (nat b) j" "\<not> nat b \<le> j"
      then have "beats ts (nat b) j" using inv nb unfolding sel_inv_def by auto
      then show False using j(4) by (auto simp: beats_def ties_def)
    qed
    then show ?thesis using True inv nb unfolding sn sel_inv_def beats_def ties_def
      by (simp) blast
  qed
qed

theorem select_next_spec_witness:
  "(\<exists>i. 1 \<le> i \<and> i < 16 \<and> state (th two_threads ! i) = T_READY)
   \<and> select_next (th two_threads) = 2
   \<and> state (th two_threads ! nat (select_next (th two_threads))) = T_READY"
proof -
  have r: "state (th two_threads ! 1) = T_READY" by code_simp
  have ex: "\<exists>i. 1 \<le> i \<and> i < 16 \<and> state (th two_threads ! i) = T_READY"
    using r by (intro exI [of _ 1]) simp
  have v: "select_next (th two_threads) = 2" by code_simp
  have "state (th two_threads ! nat (select_next (th two_threads))) = T_READY"
    using select_next_spec [of "th two_threads"] ex by (simp only: if_True)
  then show ?thesis using ex v by blast
qed

lemma fold_pointwise:
  assumes "distinct js" "length ts = n"
    and "\<And>i xs. i \<in> set js \<Longrightarrow> length xs = n \<Longrightarrow> step i xs = xs[i := g i (xs ! i)]"
  shows "length (fold step js ts) = n
       \<and> (\<forall>j<n. fold step js ts ! j = (if j \<in> set js then g j (ts ! j) else ts ! j))"
  using assms
proof (induction js arbitrary: ts)
  case Nil
  then show ?case by simp
next
  case (Cons a js)
  have st: "step a ts = ts[a := g a (ts ! a)]" using Cons.prems by simp
  have len: "length (step a ts) = n" using st Cons.prems by simp
  have ih: "length (fold step js (step a ts)) = n
       \<and> (\<forall>j<n. fold step js (step a ts) ! j = (if j \<in> set js then g j (step a ts ! j) else step a ts ! j))"
    using Cons.IH [OF _ len] Cons.prems by simp
  have a: "a \<notin> set js" using Cons.prems by simp
  show ?case
  proof (intro conjI allI impI)
    show "length (fold step (a # js) ts) = n" using ih by simp
  next
    fix j assume j: "j < n"
    have f: "fold step (a # js) ts ! j
             = (if j \<in> set js then g j (step a ts ! j) else step a ts ! j)"
      using ih j by simp
    show "fold step (a # js) ts ! j = (if j \<in> set (a # js) then g j (ts ! j) else ts ! j)"
    proof (cases "j = a")
      case True
      then show ?thesis using f a st j Cons.prems(2) by simp
    next
      case False
      then have "step a ts ! j = ts ! j" using st by simp
      then show ?thesis using f False by simp
    qed
  qed
qed

lemma aging_step_eq:
  assumes "i < MAX_THREADS" "length ts = MAX_THREADS"
  shows "aging_step i ts = ts[i := aged (ts ! i)]"
  using assms
  by (auto simp: aging_step_def aged_def refill_slice_def Let_def MAX_THREADS_def)

lemma wait_step_eq:
  "wait_step cur i ts = ts[i := waited cur i (ts ! i)]"
  by (auto simp: wait_step_def waited_def)

lemma apply_aging_nth:
  assumes "length ts = MAX_THREADS"
  shows "length (apply_aging ts) = MAX_THREADS
       \<and> (\<forall>j<MAX_THREADS. apply_aging ts ! j = (if 1 \<le> j then aged (ts ! j) else ts ! j))"
proof -
  have "length (fold aging_step [1..<MAX_THREADS] ts) = MAX_THREADS
       \<and> (\<forall>j<MAX_THREADS. fold aging_step [1..<MAX_THREADS] ts ! j
             = (if j \<in> set [1..<MAX_THREADS] then aged (ts ! j) else ts ! j))"
    by (rule fold_pointwise [where g = "\<lambda>i. aged"]) (auto simp: assms aging_step_eq)
  then show ?thesis by (auto simp: apply_aging_def)
qed

lemma wait_loop_nth:
  assumes "length ts = MAX_THREADS"
  shows "length (fold (wait_step cur) [1..<MAX_THREADS] ts) = MAX_THREADS
       \<and> (\<forall>j<MAX_THREADS. fold (wait_step cur) [1..<MAX_THREADS] ts ! j
             = (if 1 \<le> j then waited cur j (ts ! j) else ts ! j))"
proof -
  have "length (fold (wait_step cur) [1..<MAX_THREADS] ts) = MAX_THREADS
       \<and> (\<forall>j<MAX_THREADS. fold (wait_step cur) [1..<MAX_THREADS] ts ! j
             = (if j \<in> set [1..<MAX_THREADS] then waited cur j (ts ! j) else ts ! j))"
    by (rule fold_pointwise [where g = "waited cur"]) (auto simp: assms wait_step_eq)
  then show ?thesis by auto
qed

lemma aged_idem: "aged (aged t) = aged t"
  by (simp add: aged_def AGING_THRESHOLD_KT_def)

lemma aged_not_ready: "state t \<noteq> T_READY \<Longrightarrow> aged t = t"
  by (simp add: aged_def)

lemma state_aged [simp]: "state (aged t) = state t"
  by (simp add: aged_def)

lemma apply_aging_noop:
  assumes "length ts = MAX_THREADS" "\<And>j. 1 \<le> j \<Longrightarrow> j < MAX_THREADS \<Longrightarrow> aged (ts ! j) = ts ! j"
  shows "apply_aging ts = ts"
proof (rule nth_equalityI)
  show "length (apply_aging ts) = length ts" using apply_aging_nth [OF assms(1)] assms(1) by simp
next
  fix i assume "i < length (apply_aging ts)"
  then have i: "i < MAX_THREADS" using apply_aging_nth [OF assms(1)] by simp
  show "apply_aging ts ! i = ts ! i"
    using apply_aging_nth [OF assms(1)] i assms(2) by auto
qed

text \<open>The table just before the selection of sched_tick, slot by slot.\<close>

lemma tick_aged_nth:
  assumes inv: "sched_inv s"
  shows "length (tick_aged s) = MAX_THREADS"
    and "\<And>j. 1 \<le> j \<Longrightarrow> j < MAX_THREADS \<Longrightarrow> j \<noteq> nat (current s)
           \<Longrightarrow> tick_aged s ! j = aged (waited (current s) j (th s ! j))"
    and "state (tick_aged s ! nat (current s)) = T_RUNNING"
    and "priority (tick_aged s ! nat (current s)) = priority (th s ! nat (current s))"
    and "nat (current s) \<noteq> 0 \<Longrightarrow> tick_aged s ! 0 = th s ! 0"
proof -
  let ?cur = "nat (current s)"
  let ?t1 = "fold (wait_step (current s)) [1..<MAX_THREADS] (th s)"
  let ?t2 = "(if slice_left (?t1 ! ?cur) > 0
                then ?t1[?cur := (?t1 ! ?cur)\<lparr>slice_left := slice_left (?t1 ! ?cur) - 1\<rparr>]
                else ?t1)"
  have len: "length (th s) = MAX_THREADS" and cur: "?cur < MAX_THREADS"
    and run: "state (th s ! ?cur) = T_RUNNING"
    using inv by (auto simp: sched_inv_def)
  have t1: "length ?t1 = MAX_THREADS"
    "\<And>j. j < MAX_THREADS \<Longrightarrow> ?t1 ! j = (if 1 \<le> j then waited (current s) j (th s ! j) else th s ! j)"
    using wait_loop_nth [OF len, of "current s"] by auto
  have t1cur: "?t1 ! ?cur = th s ! ?cur"
    using t1(2) [OF cur] run by (simp add: waited_def)
  have t2: "length ?t2 = MAX_THREADS" using t1(1) by simp
  have t2o: "\<And>j. j < MAX_THREADS \<Longrightarrow> j \<noteq> ?cur \<Longrightarrow> ?t2 ! j = ?t1 ! j" by simp
  have t2c: "state (?t2 ! ?cur) = T_RUNNING \<and> priority (?t2 ! ?cur) = priority (th s ! ?cur)"
    using t1cur run cur t1(1) by simp
  have ta: "tick_aged s = apply_aging ?t2" by (simp add: tick_aged_def Let_def)
  have ag: "length (apply_aging ?t2) = MAX_THREADS"
    "\<And>j. j < MAX_THREADS \<Longrightarrow> apply_aging ?t2 ! j = (if 1 \<le> j then aged (?t2 ! j) else ?t2 ! j)"
    using apply_aging_nth [OF t2] by auto
  show "length (tick_aged s) = MAX_THREADS" using ag(1) ta by simp
  show "\<And>j. 1 \<le> j \<Longrightarrow> j < MAX_THREADS \<Longrightarrow> j \<noteq> nat (current s)
           \<Longrightarrow> tick_aged s ! j = aged (waited (current s) j (th s ! j))"
    using ag(2) t2o t1(2) unfolding ta by simp
  have c: "apply_aging ?t2 ! ?cur = ?t2 ! ?cur"
    using ag(2) [OF cur] t2c aged_not_ready by auto
  show "state (tick_aged s ! nat (current s)) = T_RUNNING" using c t2c unfolding ta by simp
  show "priority (tick_aged s ! nat (current s)) = priority (th s ! nat (current s))"
    using c t2c unfolding ta by simp
  show "nat (current s) \<noteq> 0 \<Longrightarrow> tick_aged s ! 0 = th s ! 0"
    using ag(2) [of 0] t2o [of 0] t1(2) [of 0] unfolding ta by (simp add: MAX_THREADS_def)
qed

lemma refill_slice_eq:
  "0 \<le> tid \<Longrightarrow> tid < 16 \<Longrightarrow>
   refill_slice tid ts = ts[nat tid := (ts ! nat tid)
       \<lparr>slice_left := word_of_int (priority_quantum ! unat (priority (ts ! nat tid)))\<rparr>]"
  by (simp add: refill_slice_def MAX_THREADS_def)

lemma select_next_ready_range:
  assumes "\<not> select_next ts < 0"
  shows "1 \<le> select_next ts" "select_next ts < 16" "state (ts ! nat (select_next ts)) = T_READY"
  using assms select_next_range [of ts] select_next_ready [of ts] by auto

text \<open>sched_yield on a table that aging leaves alone.\<close>

lemma sched_yield_cases:
  assumes len: "length (th s) = MAX_THREADS"
    and cur: "0 \<le> current s" "current s < 16"
    and run: "state (th s ! nat (current s)) = T_RUNNING"
    and noop: "\<And>j. 1 \<le> j \<Longrightarrow> j < MAX_THREADS \<Longrightarrow> aged (th s ! j) = th s ! j"
  shows "sched_yield s = s
       \<or> (\<exists>nxt sl sl'. 1 \<le> nxt \<and> nxt < 16 \<and> nxt \<noteq> nat (current s)
            \<and> state (th s ! nxt) = T_READY
            \<and> sched_yield s =
                 \<lparr>th = (th s)[nat (current s) := (th s ! nat (current s))
                                 \<lparr>state := T_READY, wait_ticks := 0, slice_left := sl\<rparr>,
                              nxt := (th s ! nxt)
                                 \<lparr>state := T_RUNNING, wait_ticks := 0, slice_left := sl'\<rparr>],
                  current = int nxt\<rparr>)"
proof -
  have ag: "apply_aging (th s) = th s" using apply_aging_noop [OF len] noop by simp
  show ?thesis
  proof (cases "select_next (th s) < 0 \<or> select_next (th s) = current s")
    case True
    then have "sched_yield s = s" by (simp add: sched_yield_def ag Let_def)
    then show ?thesis by simp
  next
    case False
    define nxt where "nxt = nat (select_next (th s))"
    have n: "1 \<le> select_next (th s)" "select_next (th s) < 16"
      "state (th s ! nat (select_next (th s))) = T_READY"
      using select_next_ready_range [of "th s"] False by auto
    have nn: "int nxt = select_next (th s)" "1 \<le> nxt" "nxt < 16" "nxt \<noteq> nat (current s)"
      "state (th s ! nxt) = T_READY"
      using n False cur by (auto simp: nxt_def)
    have c16: "nat (current s) < length (th s)" using len cur by (simp add: MAX_THREADS_def)
    have n16: "nxt < length (th s)" using len nn by (simp add: MAX_THREADS_def)
    have "sched_yield s =
                 \<lparr>th = (th s)[nat (current s) := (th s ! nat (current s))
                     \<lparr>state := T_READY, wait_ticks := 0,
                      slice_left := word_of_int (priority_quantum ! unat (priority (th s ! nat (current s))))\<rparr>,
                   nxt := (th s ! nxt)
                     \<lparr>state := T_RUNNING, wait_ticks := 0,
                      slice_left := word_of_int (priority_quantum ! unat (priority (th s ! nxt)))\<rparr>],
                  current = int nxt\<rparr>"
      using False n cur c16 n16 nn(4)
      by (simp add: sched_yield_def ag Let_def refill_slice_eq nn(1) [symmetric]
          list_update_swap [of nxt "nat (current s)"])
    then show ?thesis using nn by blast
  qed
qed

lemma sched_tick_cases:
  assumes inv: "sched_inv s"
  shows "(\<exists>sl. sched_tick s =
            s\<lparr>th := (tick_aged s)[nat (current s) :=
                     (tick_aged s ! nat (current s))\<lparr>slice_left := sl\<rparr>]\<rparr>)
       \<or> (\<exists>nxt sl sl'. 1 \<le> nxt \<and> nxt < 16 \<and> nxt \<noteq> nat (current s)
            \<and> state (tick_aged s ! nxt) = T_READY
            \<and> sched_tick s =
                 \<lparr>th = (tick_aged s)[nat (current s) := (tick_aged s ! nat (current s))
                                 \<lparr>state := T_READY, wait_ticks := 0, slice_left := sl\<rparr>,
                              nxt := (tick_aged s ! nxt)
                                 \<lparr>state := T_RUNNING, wait_ticks := 0, slice_left := sl'\<rparr>],
                  current = int nxt\<rparr>)"
proof -
  let ?cur = "nat (current s)"
  let ?ts = "tick_aged s"
  have cur: "0 \<le> current s" "current s < 16" "?cur < 16"
    using inv by (auto simp: sched_inv_def MAX_THREADS_def)
  have ta: "length ?ts = MAX_THREADS"
    "\<And>j. 1 \<le> j \<Longrightarrow> j < MAX_THREADS \<Longrightarrow> j \<noteq> ?cur
           \<Longrightarrow> ?ts ! j = aged (waited (current s) j (th s ! j))"
    "state (?ts ! ?cur) = T_RUNNING"
    using tick_aged_nth [OF inv] by auto
  have clen: "?cur < length ?ts" using ta(1) cur by (simp add: MAX_THREADS_def)
  have unf: "sched_tick s =
     (let nxt = select_next ?ts
      in if nxt \<ge> 0 \<and> (priority (?ts ! nat nxt) < priority (?ts ! ?cur)
                            \<or> slice_left (?ts ! ?cur) = 0)
            then
              sched_yield (s\<lparr>th := ?ts[?cur := (?ts ! ?cur)
                 \<lparr>slice_left := word_of_int (priority_quantum ! unat (priority (?ts ! ?cur)))\<rparr>]\<rparr>)
            else if slice_left (?ts ! ?cur) = 0
            then s\<lparr>th := refill_slice (current s) ?ts\<rparr>
            else s\<lparr>th := ?ts\<rparr>)"
    using cur by (simp add: sched_tick_def tick_aged_def Let_def)
  let ?q = "word_of_int (priority_quantum ! unat (priority (?ts ! ?cur))) :: u8"
  let ?s' = "s\<lparr>th := ?ts[?cur := (?ts ! ?cur)\<lparr>slice_left := ?q\<rparr>]\<rparr>"
  show ?thesis
  proof (cases "select_next ?ts \<ge> 0 \<and> (priority (?ts ! nat (select_next ?ts)) < priority (?ts ! ?cur)
                            \<or> slice_left (?ts ! ?cur) = 0)")
    case False
    show ?thesis
    proof (cases "slice_left (?ts ! ?cur) = 0")
      case True
      then have "sched_tick s = s\<lparr>th := ?ts[?cur := (?ts ! ?cur)\<lparr>slice_left := ?q\<rparr>]\<rparr>"
        using False unf cur by (simp add: Let_def refill_slice_eq)
      then show ?thesis by blast
    next
      case f2: False
      have "sched_tick s = s\<lparr>th := ?ts\<rparr>"
        unfolding unf Let_def using False f2 by (simp only: if_False)
      moreover have "?ts = ?ts[?cur := (?ts ! ?cur)\<lparr>slice_left := slice_left (?ts ! ?cur)\<rparr>]"
        by simp
      ultimately show ?thesis by metis
    qed
  next
    case True
    then have st: "sched_tick s = sched_yield ?s'" using unf by (simp add: Let_def)
    have l': "length (th ?s') = MAX_THREADS" using ta(1) by simp
    have r': "state (th ?s' ! nat (current ?s')) = T_RUNNING" using ta(3) clen by simp
    have no: "\<And>j. 1 \<le> j \<Longrightarrow> j < MAX_THREADS \<Longrightarrow> aged (th ?s' ! j) = th ?s' ! j"
    proof -
      fix j assume j: "1 \<le> j" "j < MAX_THREADS"
      show "aged (th ?s' ! j) = th ?s' ! j"
      proof (cases "j = ?cur")
        case True
        then show ?thesis using r' by (simp add: aged_not_ready)
      next
        case False
        then have "th ?s' ! j = aged (waited (current s) j (th s ! j))"
          using ta(2) [OF j False] by simp
        then show ?thesis by (simp add: aged_idem)
      qed
    qed
    from sched_yield_cases [OF l' _ _ r' no] cur
    have "sched_yield ?s' = ?s'
       \<or> (\<exists>nxt sl sl'. 1 \<le> nxt \<and> nxt < 16 \<and> nxt \<noteq> nat (current ?s')
            \<and> state (th ?s' ! nxt) = T_READY
            \<and> sched_yield ?s' =
                 \<lparr>th = (th ?s')[nat (current ?s') := (th ?s' ! nat (current ?s'))
                                 \<lparr>state := T_READY, wait_ticks := 0, slice_left := sl\<rparr>,
                              nxt := (th ?s' ! nxt)
                                 \<lparr>state := T_RUNNING, wait_ticks := 0, slice_left := sl'\<rparr>],
                  current = int nxt\<rparr>)"
      by simp
    then show ?thesis
    proof
      assume "sched_yield ?s' = ?s'"
      then show ?thesis using st by metis
    next
      assume "\<exists>nxt sl sl'. 1 \<le> nxt \<and> nxt < 16 \<and> nxt \<noteq> nat (current ?s')
            \<and> state (th ?s' ! nxt) = T_READY
            \<and> sched_yield ?s' =
                 \<lparr>th = (th ?s')[nat (current ?s') := (th ?s' ! nat (current ?s'))
                                 \<lparr>state := T_READY, wait_ticks := 0, slice_left := sl\<rparr>,
                              nxt := (th ?s' ! nxt)
                                 \<lparr>state := T_RUNNING, wait_ticks := 0, slice_left := sl'\<rparr>],
                  current = int nxt\<rparr>"
      then obtain nxt sl sl' where n: "1 \<le> nxt" "nxt < 16" "nxt \<noteq> ?cur"
            "state (th ?s' ! nxt) = T_READY"
            "sched_yield ?s' =
                 \<lparr>th = (th ?s')[nat (current ?s') := (th ?s' ! nat (current ?s'))
                                 \<lparr>state := T_READY, wait_ticks := 0, slice_left := sl\<rparr>,
                              nxt := (th ?s' ! nxt)
                                 \<lparr>state := T_RUNNING, wait_ticks := 0, slice_left := sl'\<rparr>],
                  current = int nxt\<rparr>"
        by auto
      have "sched_tick s =
                 \<lparr>th = ?ts[?cur := (?ts ! ?cur)
                                 \<lparr>state := T_READY, wait_ticks := 0, slice_left := sl\<rparr>,
                              nxt := (?ts ! nxt)
                                 \<lparr>state := T_RUNNING, wait_ticks := 0, slice_left := sl'\<rparr>],
                  current = int nxt\<rparr>"
        using st n(3) n(5) clen by simp
      moreover have "state (?ts ! nxt) = T_READY" using n(3,4) by simp
      ultimately show ?thesis using n(1,2,3) by blast
    qed
  qed
qed

lemma uint_pos_iff: "0 < uint (p :: 'a::len word) \<longleftrightarrow> p \<noteq> 0"
  by (simp add: order_less_le uint_0_iff)

lemma aged_prio_bound: "unat (priority t) < 4 \<Longrightarrow> unat (priority (aged t)) < 4"
proof -
  assume a: "unat (priority t) < 4"
  have "unat (priority t - 1) \<le> unat (priority t)" if "priority t \<noteq> 0"
    using that by (simp add: unat_minus_one)
  then show ?thesis using a
    by (auto simp: aged_def SCHED_PRIORITY_REALTIME_def uint_pos_iff)
qed

lemma aged_wait_bound:
  "state (aged t) = T_READY \<Longrightarrow> priority (aged t) \<noteq> 0
     \<Longrightarrow> unat (wait_ticks (aged t)) < AGING_THRESHOLD_KT"
  by (auto simp: aged_def SCHED_PRIORITY_REALTIME_def AGING_THRESHOLD_KT_def uint_pos_iff
      split: if_splits)

lemma waited_fields [simp]:
  "priority (waited c j t) = priority t" "state (waited c j t) = state t"
  by (simp_all add: waited_def)

lemma tick_aged_prio:
  assumes inv: "sched_inv s" and j: "j < MAX_THREADS"
  shows "unat (priority (tick_aged s ! j)) < 4"
proof -
  have p: "unat (priority (th s ! j)) < 4" "unat (priority (th s ! nat (current s))) < 4"
    using inv j by (auto simp: sched_inv_def)
  show ?thesis
  proof (cases "j = nat (current s)")
    case True
    then show ?thesis using tick_aged_nth(4) [OF inv] p by simp
  next
    case False
    show ?thesis
    proof (cases "1 \<le> j")
      case True
      then show ?thesis using tick_aged_nth(2) [OF inv True j False] p aged_prio_bound by simp
    next
      case f: False
      then have "j = 0" by simp
      then show ?thesis using tick_aged_nth(5) [OF inv] False p by simp
    qed
  qed
qed

lemma tick_aged_wait:
  assumes inv: "sched_inv s" and j: "1 \<le> j" "j < MAX_THREADS"
    and r: "state (tick_aged s ! j) = T_READY" "priority (tick_aged s ! j) \<noteq> 0"
  shows "unat (wait_ticks (tick_aged s ! j)) < AGING_THRESHOLD_KT"
proof -
  have "j \<noteq> nat (current s)" using tick_aged_nth(3) [OF inv] r by auto
  then have "tick_aged s ! j = aged (waited (current s) j (th s ! j))"
    using tick_aged_nth(2) [OF inv j] by simp
  then show ?thesis using aged_wait_bound r by simp
qed

lemma sched_inv_tick:
  assumes inv: "sched_inv s"
  shows "sched_inv (sched_tick s)"
proof -
  let ?cur = "nat (current s)"
  let ?ts = "tick_aged s"
  have cur: "0 \<le> current s" "current s < 16" "?cur < 16"
    using inv by (auto simp: sched_inv_def MAX_THREADS_def)
  have len: "length ?ts = 16" using tick_aged_nth(1) [OF inv] by (simp add: MAX_THREADS_def)
  have run: "state (?ts ! ?cur) = T_RUNNING" using tick_aged_nth(3) [OF inv] .
  have pr: "\<And>j. j < 16 \<Longrightarrow> unat (priority (?ts ! j)) < 4"
    using tick_aged_prio [OF inv] by (simp add: MAX_THREADS_def)
  have wt: "\<And>j. 1 \<le> j \<Longrightarrow> j < 16 \<Longrightarrow> state (?ts ! j) = T_READY \<Longrightarrow> priority (?ts ! j) \<noteq> 0
              \<Longrightarrow> unat (wait_ticks (?ts ! j)) < AGING_THRESHOLD_KT"
    using tick_aged_wait [OF inv] by (simp add: MAX_THREADS_def)
  from sched_tick_cases [OF inv] show ?thesis
  proof (elim disjE exE conjE)
    fix sl
    assume e: "sched_tick s = s\<lparr>th := ?ts[?cur := (?ts ! ?cur)\<lparr>slice_left := sl\<rparr>]\<rparr>"
    show ?thesis
      unfolding sched_inv_def e
      using cur len run pr wt
      by (auto simp: MAX_THREADS_def nth_list_update)
  next
    fix nxt sl sl'
    assume n: "1 \<le> nxt" "nxt < 16" "nxt \<noteq> ?cur" "state (?ts ! nxt) = T_READY"
      and e: "sched_tick s =
                 \<lparr>th = ?ts[?cur := (?ts ! ?cur)
                                 \<lparr>state := T_READY, wait_ticks := 0, slice_left := sl\<rparr>,
                              nxt := (?ts ! nxt)
                                 \<lparr>state := T_RUNNING, wait_ticks := 0, slice_left := sl'\<rparr>],
                  current = int nxt\<rparr>"
    show ?thesis
      unfolding sched_inv_def e
      using cur len run pr wt n
      by (auto simp: MAX_THREADS_def nth_list_update AGING_THRESHOLD_KT_def)
  qed
qed

lemma sched_tick_ready_thread:
  assumes inv: "sched_inv s" and i: "1 \<le> i" "i < 16"
    and r: "state (th s ! i) = T_READY"
  shows "priority (th (sched_tick s) ! i)
           = priority (aged ((th s ! i)\<lparr>wait_ticks := wait_ticks (th s ! i) + 1\<rparr>))"
    and "state (th (sched_tick s) ! i) = T_READY \<Longrightarrow>
           th (sched_tick s) ! i = aged ((th s ! i)\<lparr>wait_ticks := wait_ticks (th s ! i) + 1\<rparr>)"
    and "state (th (sched_tick s) ! i) = T_READY \<or> state (th (sched_tick s) ! i) = T_RUNNING"
proof -
  let ?cur = "nat (current s)"
  let ?ts = "tick_aged s"
  have cur: "0 \<le> current s" "current s < 16" "?cur < 16" "state (th s ! ?cur) = T_RUNNING"
    using inv by (auto simp: sched_inv_def MAX_THREADS_def)
  have ic1: "i \<noteq> ?cur" using cur(4) r by auto
  then have ic: "i \<noteq> ?cur" "int i \<noteq> current s" by auto
  have len: "length ?ts = 16" using tick_aged_nth(1) [OF inv] by (simp add: MAX_THREADS_def)
  have ti: "?ts ! i = aged ((th s ! i)\<lparr>wait_ticks := wait_ticks (th s ! i) + 1\<rparr>)"
    using tick_aged_nth(2) [OF inv, of i] i ic r by (simp add: MAX_THREADS_def waited_def)
  have sti: "state (?ts ! i) = T_READY" using ti r by simp
  from sched_tick_cases [OF inv]
  have c: "(th (sched_tick s) ! i = ?ts ! i)
         \<or> (state (th (sched_tick s) ! i) = T_RUNNING
            \<and> priority (th (sched_tick s) ! i) = priority (?ts ! i))"
  proof (elim disjE exE conjE)
    fix sl
    assume e: "sched_tick s = s\<lparr>th := ?ts[?cur := (?ts ! ?cur)\<lparr>slice_left := sl\<rparr>]\<rparr>"
    show ?thesis using ic unfolding e by simp
  next
    fix nxt sl sl'
    assume n: "1 \<le> nxt" "nxt < 16" "nxt \<noteq> ?cur" "state (?ts ! nxt) = T_READY"
      and e: "sched_tick s =
                 \<lparr>th = ?ts[?cur := (?ts ! ?cur)
                                 \<lparr>state := T_READY, wait_ticks := 0, slice_left := sl\<rparr>,
                              nxt := (?ts ! nxt)
                                 \<lparr>state := T_RUNNING, wait_ticks := 0, slice_left := sl'\<rparr>],
                  current = int nxt\<rparr>"
    show ?thesis using ic len n i unfolding e by (cases "i = nxt") simp_all
  qed
  show "priority (th (sched_tick s) ! i)
           = priority (aged ((th s ! i)\<lparr>wait_ticks := wait_ticks (th s ! i) + 1\<rparr>))"
    using c ti by auto
  show "state (th (sched_tick s) ! i) = T_READY \<Longrightarrow>
           th (sched_tick s) ! i = aged ((th s ! i)\<lparr>wait_ticks := wait_ticks (th s ! i) + 1\<rparr>)"
    using c ti by auto
  show "state (th (sched_tick s) ! i) = T_READY \<or> state (th (sched_tick s) ! i) = T_RUNNING"
    using c sti by auto
qed

lemma ready_through_now: "ready_through i n s \<Longrightarrow> state (th s ! i) = T_READY"
  by (cases n) simp_all

lemma ready_through_iff:
  "ready_through i n s \<longleftrightarrow> (\<forall>k\<le>n. state (th (ticks k s) ! i) = T_READY)"
proof (induction n arbitrary: s)
  case 0
  show ?case by simp
next
  case (Suc n)
  have "(\<forall>k\<le>Suc n. state (th (ticks k s) ! i) = T_READY)
        \<longleftrightarrow> state (th s ! i) = T_READY \<and> (\<forall>k\<le>n. state (th (ticks k (sched_tick s)) ! i) = T_READY)"
  proof
    assume a: "\<forall>k\<le>Suc n. state (th (ticks k s) ! i) = T_READY"
    have "state (th (ticks 0 s) ! i) = T_READY" using a by blast
    moreover have "\<forall>k\<le>n. state (th (ticks (Suc k) s) ! i) = T_READY" using a by auto
    ultimately show "state (th s ! i) = T_READY \<and> (\<forall>k\<le>n. state (th (ticks k (sched_tick s)) ! i) = T_READY)"
      by simp
  next
    assume a: "state (th s ! i) = T_READY \<and> (\<forall>k\<le>n. state (th (ticks k (sched_tick s)) ! i) = T_READY)"
    show "\<forall>k\<le>Suc n. state (th (ticks k s) ! i) = T_READY"
    proof (intro allI impI)
      fix k assume "k \<le> Suc n"
      then show "state (th (ticks k s) ! i) = T_READY" using a by (cases k) auto
    qed
  qed
  then show ?case using Suc.IH by simp
qed

lemma potential_step:
  assumes p: "unat (priority t) < 4"
    and w: "priority t \<noteq> 0 \<longrightarrow> unat (wait_ticks t) < AGING_THRESHOLD_KT"
    and r: "state t = T_READY"
  shows "prio_potential (aged (t\<lparr>wait_ticks := wait_ticks t + 1\<rparr>)) \<le> prio_potential t - 1"
proof (cases "priority t = 0")
  case True
  then show ?thesis
    by (simp add: aged_def prio_potential_def SCHED_PRIORITY_REALTIME_def)
next
  case False
  then have wl: "unat (wait_ticks t) < 32" using w by (simp add: AGING_THRESHOLD_KT_def)
  have w1: "unat (wait_ticks t + 1) = unat (wait_ticks t) + 1"
    using wl by (simp add: unat_word_ariths)
  have p1: "unat (priority t - 1) = unat (priority t) - 1"
    using False by (simp add: unat_minus_one)
  have pp: "0 < unat (priority t)" using False by (simp add: unat_gt_0)
  show ?thesis
    using False wl w1 p1 pp r p
    by (auto simp: aged_def prio_potential_def SCHED_PRIORITY_REALTIME_def
        AGING_THRESHOLD_KT_def uint_pos_iff)
qed

lemma ready_through_potential:
  assumes "sched_inv s" "1 \<le> i" "i < 16" "ready_through i n s"
  shows "sched_inv (ticks n s)
       \<and> prio_potential (th (ticks n s) ! i) \<le> prio_potential (th s ! i) - n"
  using assms
proof (induction n arbitrary: s)
  case 0
  then show ?case by simp
next
  case (Suc n)
  have r0: "state (th s ! i) = T_READY" and rt: "ready_through i n (sched_tick s)"
    using Suc.prems(4) by simp_all
  have r1: "state (th (sched_tick s) ! i) = T_READY" using rt by (rule ready_through_now)
  have inv1: "sched_inv (sched_tick s)" using Suc.prems(1) by (rule sched_inv_tick)
  have e: "th (sched_tick s) ! i = aged ((th s ! i)\<lparr>wait_ticks := wait_ticks (th s ! i) + 1\<rparr>)"
    using sched_tick_ready_thread(2) [OF Suc.prems(1-3) r0 r1] .
  have pw: "unat (priority (th s ! i)) < 4"
    "priority (th s ! i) \<noteq> 0 \<longrightarrow> unat (wait_ticks (th s ! i)) < AGING_THRESHOLD_KT"
    using Suc.prems(1-3) r0 by (auto simp: sched_inv_def MAX_THREADS_def)
  have st: "prio_potential (th (sched_tick s) ! i) \<le> prio_potential (th s ! i) - 1"
    unfolding e using potential_step [OF pw r0] .
  have ih: "sched_inv (ticks n (sched_tick s))
       \<and> prio_potential (th (ticks n (sched_tick s)) ! i)
           \<le> prio_potential (th (sched_tick s) ! i) - n"
    using Suc.IH [OF inv1 Suc.prems(2,3) rt] .
  have "prio_potential (th (ticks n (sched_tick s)) ! i) \<le> prio_potential (th s ! i) - Suc n"
    using ih st by arith
  then show ?case using ih by simp
qed

lemma potential_bound: "unat (priority t) < 4 \<Longrightarrow> prio_potential t \<le> 96"
  unfolding prio_potential_def by (cases "priority t = 0") (simp, arith)

text \<open>
  C7, for the slots the scheduler's loops cover (1..15). In a consistent state a READY
  thread in slot \<open>i\<close> is not the current one, and one timer tick increments its
  \<open>wait_ticks\<close>; if that reaches AGING_THRESHOLD (32) and the priority is above
  REALTIME, the thread moves up one level, with \<open>wait_ticks\<close> back to 0 and the slice
  set to the quantum of the new level. A thread that stays READY over 96 ticks has
  REALTIME priority after them.
\<close>

theorem kernel_aging:
  assumes inv: "sched_inv s" and i: "1 \<le> i" "i < 16"
    and r: "state (th s ! i) = T_READY"
  shows "int i \<noteq> current s
       \<and> priority (th (sched_tick s) ! i)
           = (if 32 \<le> unat (wait_ticks (th s ! i) + 1) \<and> priority (th s ! i) \<noteq> 0
              then priority (th s ! i) - 1 else priority (th s ! i))
       \<and> (state (th (sched_tick s) ! i) = T_READY \<longrightarrow>
            (if 32 \<le> unat (wait_ticks (th s ! i) + 1) \<and> priority (th s ! i) \<noteq> 0
             then wait_ticks (th (sched_tick s) ! i) = 0
                \<and> slice_left (th (sched_tick s) ! i)
                    = word_of_int (priority_quantum ! unat (priority (th s ! i) - 1))
             else wait_ticks (th (sched_tick s) ! i) = wait_ticks (th s ! i) + 1))
       \<and> ((\<forall>k\<le>96. state (th (ticks k s) ! i) = T_READY)
            \<longrightarrow> uint (priority (th (ticks 96 s) ! i)) = SCHED_PRIORITY_REALTIME)"
proof (intro conjI impI)
  have c: "state (th s ! nat (current s)) = T_RUNNING"
    using inv by (auto simp: sched_inv_def)
  show "int i \<noteq> current s"
  proof
    assume "int i = current s"
    then have "nat (current s) = i" by (simp add: nat_int [symmetric] del: nat_int)
    then show False using c r by simp
  qed
next
  show "priority (th (sched_tick s) ! i)
           = (if 32 \<le> unat (wait_ticks (th s ! i) + 1) \<and> priority (th s ! i) \<noteq> 0
              then priority (th s ! i) - 1 else priority (th s ! i))"
    using sched_tick_ready_thread(1) [OF inv i r] r
    by (simp add: aged_def AGING_THRESHOLD_KT_def SCHED_PRIORITY_REALTIME_def uint_pos_iff)
next
  assume r1: "state (th (sched_tick s) ! i) = T_READY"
  show "if 32 \<le> unat (wait_ticks (th s ! i) + 1) \<and> priority (th s ! i) \<noteq> 0
             then wait_ticks (th (sched_tick s) ! i) = 0
                \<and> slice_left (th (sched_tick s) ! i)
                    = word_of_int (priority_quantum ! unat (priority (th s ! i) - 1))
             else wait_ticks (th (sched_tick s) ! i) = wait_ticks (th s ! i) + 1"
    using sched_tick_ready_thread(2) [OF inv i r r1] r
    by (simp add: aged_def AGING_THRESHOLD_KT_def SCHED_PRIORITY_REALTIME_def uint_pos_iff)
next
  assume a: "\<forall>k\<le>96. state (th (ticks k s) ! i) = T_READY"
  then have rt: "ready_through i 96 s" by (simp add: ready_through_iff)
  have pw: "unat (priority (th s ! i)) < 4"
    using inv i by (auto simp: sched_inv_def MAX_THREADS_def)
  have fin: "sched_inv (ticks 96 s)"
    "prio_potential (th (ticks 96 s) ! i) \<le> prio_potential (th s ! i) - 96"
    using ready_through_potential [OF inv i rt] by auto
  have z: "prio_potential (th (ticks 96 s) ! i) = 0"
    using fin(2) potential_bound [OF pw] by simp
  have r96: "state (th (ticks 96 s) ! i) = T_READY" using a by simp
  have "priority (th (ticks 96 s) ! i) \<noteq> 0 \<longrightarrow> unat (wait_ticks (th (ticks 96 s) ! i)) < 32"
    using fin(1) i r96 by (auto simp: sched_inv_def MAX_THREADS_def AGING_THRESHOLD_KT_def)
  moreover have "priority (th (ticks 96 s) ! i) \<noteq> 0 \<longrightarrow> 0 < unat (priority (th (ticks 96 s) ! i))"
    by (simp add: unat_gt_0)
  ultimately have "priority (th (ticks 96 s) ! i) = 0"
    using z by (auto simp: prio_potential_def split: if_splits)
  then show "uint (priority (th (ticks 96 s) ! i)) = SCHED_PRIORITY_REALTIME"
    by (simp add: SCHED_PRIORITY_REALTIME_def)
qed

lemma sched_inv_starved: "sched_inv starved"
proof -
  have 1: "length (th starved) = MAX_THREADS" by code_simp
  have 2: "0 \<le> current starved \<and> current starved < int MAX_THREADS
           \<and> state (th starved ! nat (current starved)) = T_RUNNING" by code_simp
  have 3: "\<forall>i\<in>{0..<MAX_THREADS}. unat (priority (th starved ! i)) < 4" by code_simp
  have 4: "\<forall>i\<in>{1..<MAX_THREADS}. state (th starved ! i) = T_READY \<and> priority (th starved ! i) \<noteq> 0
          \<longrightarrow> unat (wait_ticks (th starved ! i)) < AGING_THRESHOLD_KT" by code_simp
  show ?thesis unfolding sched_inv_def using 1 2 3 4 by auto
qed

theorem kernel_aging_witness:
  "sched_inv starved \<and> state (th starved ! 3) = T_READY
   \<and> uint (priority (th starved ! 3)) = SCHED_PRIORITY_BATCH
   \<and> ready_through 3 96 starved
   \<and> int 3 \<noteq> current starved
   \<and> wait_ticks (th (sched_tick starved) ! 3) = wait_ticks (th starved ! 3) + 1
   \<and> uint (priority (th (ticks 96 starved) ! 3)) = SCHED_PRIORITY_REALTIME"
proof -
  have r: "state (th starved ! 3) = T_READY" by code_simp
  have p: "uint (priority (th starved ! 3)) = SCHED_PRIORITY_BATCH" by code_simp
  have rt: "ready_through 3 96 starved" by code_simp
  have r1: "state (th (sched_tick starved) ! 3) = T_READY" by code_simp
  have c: "\<not> (32 \<le> unat (wait_ticks (th starved ! 3) + 1) \<and> priority (th starved ! 3) \<noteq> 0)"
    by code_simp
  have a: "\<forall>k\<le>96. state (th (ticks k starved) ! 3) = T_READY"
    using rt by (simp add: ready_through_iff)
  show ?thesis
    using kernel_aging [OF sched_inv_starved _ _ r, of] r p rt r1 c a sched_inv_starved
    by simp
qed

text \<open>
  C7 as stated for every READY thread fails for the bootstrap slot 0: once the
  bootstrap thread has yielded it is READY and not current, yet a tick leaves its
  \<open>wait_ticks\<close> alone and after 96 ticks of continuous readiness it is still BATCH.
\<close>

theorem kernel_aging_slot0_counterexample:
  "state (th boot_yielded ! 0) = T_READY \<and> current boot_yielded \<noteq> 0
   \<and> wait_ticks (th (sched_tick boot_yielded) ! 0) \<noteq> wait_ticks (th boot_yielded ! 0) + 1
   \<and> ready_through 0 96 boot_yielded
   \<and> uint (priority (th (ticks 96 boot_yielded) ! 0)) = SCHED_PRIORITY_BATCH
   \<and> uint (priority (th (ticks 96 boot_yielded) ! 0)) \<noteq> SCHED_PRIORITY_REALTIME"
  by code_simp

subsection \<open>The consistency of the scheduler state is kept by every entry point\<close>

lemma sched_inv_init: "sched_inv sched_init"
  by (auto simp: sched_inv_def sched_init_def Let_def refill_slice_def MAX_THREADS_def
      zero_thread_def SCHED_PRIORITY_BATCH_def priority_quantum_def nth_list_update
      AGING_THRESHOLD_KT_def)

lemma sched_inv_slot_update:
  assumes inv: "sched_inv s" and i: "i < MAX_THREADS"
    and st: "int i = current s \<longrightarrow> state t = T_RUNNING"
    and pr: "unat (priority t) < 4"
    and wt: "state t = T_READY \<and> priority t \<noteq> 0 \<longrightarrow> unat (wait_ticks t) < AGING_THRESHOLD_KT"
  shows "sched_inv (s\<lparr>th := (th s)[i := t]\<rparr>)"
proof -
  have c: "0 \<le> current s" using inv by (simp add: sched_inv_def)
  have e: "nat (current s) = i \<longleftrightarrow> int i = current s" using c by auto
  show ?thesis
    using inv i st pr wt e unfolding sched_inv_def
    by (auto simp: nth_list_update)
qed

lemma sched_inv_set_priority:
  assumes inv: "sched_inv s"
  shows "sched_inv (snd (sched_set_priority pid prio s))"
proof (cases "pid < 0 \<or> pid \<ge> int MAX_THREADS \<or> prio < SCHED_PRIORITY_REALTIME
              \<or> prio \<ge> SCHED_PRIORITY_LEVELS \<or> state (th s ! nat pid) = T_UNUSED")
  case True
  then show ?thesis using inv by (auto simp: sched_set_priority_def)
next
  case False
  then have p: "0 \<le> pid" "pid < 16" "0 \<le> prio" "prio < 4"
    by (auto simp: MAX_THREADS_def SCHED_PRIORITY_REALTIME_def SCHED_PRIORITY_LEVELS_def)
  let ?t = "(th s ! nat pid)\<lparr>priority := word_of_int prio, wait_ticks := 0,
              slice_left := word_of_int (priority_quantum ! unat (word_of_int prio :: u8))\<rparr>"
  have len: "length (th s) = 16" using inv by (simp add: sched_inv_def MAX_THREADS_def)
  have r: "snd (sched_set_priority pid prio s) = s\<lparr>th := (th s)[nat pid := ?t]\<rparr>"
    using False p len
    by (simp add: sched_set_priority_def Let_def refill_slice_def MAX_THREADS_def
        SCHED_PRIORITY_REALTIME_def SCHED_PRIORITY_LEVELS_def)
  have u: "unat (word_of_int prio :: u8) = nat prio"
    using p by (simp add: unat_eq_nat_uint uint_word_of_int)
  have cur: "int (nat pid) = current s \<longrightarrow> state (th s ! nat pid) = T_RUNNING"
    using inv p by (auto simp: sched_inv_def)
  show ?thesis
    unfolding r
    by (rule sched_inv_slot_update [OF inv])
       (use p u cur in \<open>auto simp: MAX_THREADS_def AGING_THRESHOLD_KT_def\<close>)
qed

lemma sched_inv_create_from:
  assumes "sched_inv s" "i + n \<le> MAX_THREADS"
  shows "sched_inv (snd (kthread_create_from i n new_esp nm s))"
  using assms
proof (induction n arbitrary: i)
  case 0
  then show ?case by simp
next
  case (Suc n)
  show ?case
  proof (cases "state (th s ! i) = T_UNUSED")
    case False
    then show ?thesis using Suc.IH [of "Suc i"] Suc.prems by simp
  next
    case True
    show ?thesis
    proof (cases "new_esp = 0")
      case z: True
      then show ?thesis using True Suc.prems by simp
    next
      case nz: False
      have i: "i < MAX_THREADS" using Suc.prems(2) by simp
      have len: "length (th s) = 16" using Suc.prems(1) by (simp add: sched_inv_def MAX_THREADS_def)
      let ?t = "(th s ! i)\<lparr>esp := new_esp, state := T_READY,
                  name := (case nm of None \<Rightarrow> [] | Some x \<Rightarrow> take 15 x),
                  priority := word_of_int DEFAULT_PRIORITY, wait_ticks := 0,
                  slice_left := word_of_int (priority_quantum
                     ! unat (word_of_int DEFAULT_PRIORITY :: u8))\<rparr>"
      have r: "snd (kthread_create_from i (Suc n) new_esp nm s) = s\<lparr>th := (th s)[i := ?t]\<rparr>"
        using True nz i len
        by (simp add: Let_def refill_slice_def MAX_THREADS_def)
      have nc: "int i \<noteq> current s"
      proof
        assume "int i = current s"
        then have "nat (current s) = i" by (simp add: nat_int [symmetric] del: nat_int)
        then show False using Suc.prems(1) True by (simp add: sched_inv_def)
      qed
      show ?thesis
        unfolding r
        by (rule sched_inv_slot_update [OF Suc.prems(1) i])
           (use nc in \<open>auto simp: DEFAULT_PRIORITY_def SCHED_PRIORITY_INTERACTIVE_def
              AGING_THRESHOLD_KT_def\<close>)
    qed
  qed
qed

lemma sched_inv_create:
  "sched_inv s \<Longrightarrow> sched_inv (snd (kthread_create new_esp nm s))"
  unfolding kthread_create_def by (rule sched_inv_create_from) (simp_all add: MAX_THREADS_def)

lemma sched_inv_yield:
  assumes inv: "sched_inv s"
  shows "sched_inv (sched_yield s)"
proof -
  have len: "length (th s) = MAX_THREADS" and cur: "0 \<le> current s" "current s < 16"
    and run: "state (th s ! nat (current s)) = T_RUNNING"
    using inv by (auto simp: sched_inv_def MAX_THREADS_def)
  have noop: "\<And>j. 1 \<le> j \<Longrightarrow> j < MAX_THREADS \<Longrightarrow> aged (th s ! j) = th s ! j"
    using inv
    by (auto simp: sched_inv_def aged_def SCHED_PRIORITY_REALTIME_def uint_pos_iff)
  have c: "sched_yield s = s
       \<or> (\<exists>nxt sl sl'. 1 \<le> nxt \<and> nxt < 16 \<and> nxt \<noteq> nat (current s)
            \<and> state (th s ! nxt) = T_READY
            \<and> sched_yield s =
                 \<lparr>th = (th s)[nat (current s) := (th s ! nat (current s))
                                 \<lparr>state := T_READY, wait_ticks := 0, slice_left := sl\<rparr>,
                              nxt := (th s ! nxt)
                                 \<lparr>state := T_RUNNING, wait_ticks := 0, slice_left := sl'\<rparr>],
                  current = int nxt\<rparr>)"
    by (rule sched_yield_cases [OF len cur run]) (rule noop)
  from c show ?thesis
  proof (elim disjE exE conjE)
    assume "sched_yield s = s"
    then show ?thesis using inv by simp
  next
    fix nxt sl sl'
    assume n: "1 \<le> nxt" "nxt < 16" "nxt \<noteq> nat (current s)" "state (th s ! nxt) = T_READY"
      and e: "sched_yield s =
                 \<lparr>th = (th s)[nat (current s) := (th s ! nat (current s))
                                 \<lparr>state := T_READY, wait_ticks := 0, slice_left := sl\<rparr>,
                              nxt := (th s ! nxt)
                                 \<lparr>state := T_RUNNING, wait_ticks := 0, slice_left := sl'\<rparr>],
                  current = int nxt\<rparr>"
    show ?thesis
      unfolding e sched_inv_def
      using inv n cur
      by (auto simp: sched_inv_def MAX_THREADS_def nth_list_update AGING_THRESHOLD_KT_def)
  qed
qed

section \<open>Properties of profiles and of the round-robin process selection\<close>

lemma type_mask_vals: "type_mask CPU_TYPE_PCORE = 3" "type_mask CPU_TYPE_ECORE = 12"
  by (simp_all add: type_mask_def g_cpu_topology_def NUM_CPUS_def upt_rec)

lemma intent_mask_vals:
  "intent_mask PROFILE_PERFORMANCE = 3" "intent_mask PROFILE_LOW_LATENCY = 3"
  "intent_mask PROFILE_EFFICIENCY = 12" "intent_mask PROFILE_DEFAULT = 15"
  by (simp_all add: intent_mask_def type_mask_vals NUM_CPUS_def)

lemma intent_mask_nonzero: "intent_mask it \<noteq> 0"
  by (cases it) (simp_all add: intent_mask_vals)

lemma numa_cpu_mask_vals: "numa_cpu_mask 0 = 3" "numa_cpu_mask 1 = 12"
  by (simp_all add: numa_cpu_mask_def g_cpu_topology_def NUM_CPUS_def upt_rec)

lemma numa_node_range:
  "htas_get_numa_node_for_address a = 0 \<or> htas_get_numa_node_for_address a = 1"
  by (simp add: htas_get_numa_node_for_address_def g_numa_regions_def)

lemma htas_calculate_affinity_null:
  "htas_calculate_affinity \<lparr>intent = it, primary_data_region = 0, data_size = d\<rparr> = intent_mask it"
  by simp

text \<open>
  C2. For every profile \<open>htas_calculate_affinity\<close> returns a non-zero mask; when the
  intersection of the intent mask with the CPUs of the data region's NUMA node is
  empty the result is the intent-only mask; and whenever \<open>sys_sched_set_profile\<close>
  returns 0 the process it found carries that non-zero mask.
\<close>

theorem affinity_nonzero:
  "htas_calculate_affinity p \<noteq> 0
   \<and> (primary_data_region p \<noteq> 0
        \<and> intent_mask (intent p)
              AND numa_cpu_mask (htas_get_numa_node_for_address (primary_data_region p)) = 0
      \<longrightarrow> htas_calculate_affinity p = intent_mask (intent p))
   \<and> (\<forall>i. fst (sys_sched_set_profile process_find alloc_ok pid p procs) = 0
         \<and> process_find pid = Some i \<and> i < length procs
       \<longrightarrow> (\<exists>info. htas_info (snd (sys_sched_set_profile process_find alloc_ok pid p procs) ! i)
                       = Some info
              \<and> cpu_affinity_mask info = htas_calculate_affinity p
              \<and> cpu_affinity_mask info \<noteq> 0))"
proof -
  have nz: "htas_calculate_affinity q \<noteq> 0" for q
    using intent_mask_nonzero [of "intent q"] by (simp split: if_splits)
  have fb: "primary_data_region p \<noteq> 0
        \<and> intent_mask (intent p)
              AND numa_cpu_mask (htas_get_numa_node_for_address (primary_data_region p)) = 0
      \<longrightarrow> htas_calculate_affinity p = intent_mask (intent p)"
    by simp
  have sp: "\<forall>i. fst (sys_sched_set_profile process_find alloc_ok pid p procs) = 0
         \<and> process_find pid = Some i \<and> i < length procs
       \<longrightarrow> (\<exists>info. htas_info (snd (sys_sched_set_profile process_find alloc_ok pid p procs) ! i)
                       = Some info
              \<and> cpu_affinity_mask info = htas_calculate_affinity p
              \<and> cpu_affinity_mask info \<noteq> 0)"
    using nz [of p]
    by (auto simp: sys_sched_set_profile_def Let_def split: option.splits if_splits
             simp del: htas_calculate_affinity.simps)
  show ?thesis using nz fb sp by blast
qed

lemma rr_skips_iff:
  assumes "valid_ptr procs cur" "idx < length procs"
  shows "rr_skips procs (current_candidate procs cur) idx \<longleftrightarrow> \<not> other_runnable procs cur idx"
  using assms
  by (cases cur)
     (auto simp: rr_skips_def current_candidate_def other_runnable_def runnable_def ptr_state_def
        valid_ptr_def)

lemma rr_scan_None:
  "rr_scan procs cand start sc n = None
     \<longleftrightarrow> (\<forall>k. sc \<le> k \<and> k < sc + n \<longrightarrow> rr_skips procs cand ((start + k) mod length procs))"
proof (induction n arbitrary: sc)
  case 0
  show ?case by auto
next
  case (Suc n)
  show ?case
  proof (cases "rr_skips procs cand ((start + sc) mod length procs)")
    case True
    have "(\<forall>k. sc \<le> k \<and> k < sc + Suc n \<longrightarrow> rr_skips procs cand ((start + k) mod length procs))
          \<longleftrightarrow> (\<forall>k. Suc sc \<le> k \<and> k < Suc sc + n \<longrightarrow> rr_skips procs cand ((start + k) mod length procs))"
    proof (intro iffI allI impI)
      fix k assume a: "\<forall>k. sc \<le> k \<and> k < sc + Suc n \<longrightarrow> rr_skips procs cand ((start + k) mod length procs)"
        and k: "Suc sc \<le> k \<and> k < Suc sc + n"
      have "sc \<le> k \<and> k < sc + Suc n" using k by arith
      then show "rr_skips procs cand ((start + k) mod length procs)" using a by blast
    next
      fix k assume a: "\<forall>k. Suc sc \<le> k \<and> k < Suc sc + n \<longrightarrow> rr_skips procs cand ((start + k) mod length procs)"
        and k: "sc \<le> k \<and> k < sc + Suc n"
      show "rr_skips procs cand ((start + k) mod length procs)"
      proof (cases "k = sc")
        case True
        then show ?thesis using \<open>rr_skips procs cand ((start + sc) mod length procs)\<close> by simp
      next
        case False
        then have "Suc sc \<le> k \<and> k < Suc sc + n" using k by arith
        then show ?thesis using a by blast
      qed
    qed
    then show ?thesis using True Suc.IH [of "Suc sc"] by (simp add: Let_def)
  next
    case False
    then show ?thesis by (auto simp: Let_def)
  qed
qed

lemma rr_scan_Some:
  "rr_scan procs cand start sc n = Some idx
     \<Longrightarrow> \<exists>k. sc \<le> k \<and> k < sc + n \<and> idx = (start + k) mod length procs
            \<and> \<not> rr_skips procs cand idx
            \<and> (\<forall>k'. sc \<le> k' \<and> k' < k \<longrightarrow> rr_skips procs cand ((start + k') mod length procs))"
proof (induction n arbitrary: sc)
  case 0
  then show ?case by simp
next
  case (Suc n)
  show ?case
  proof (cases "rr_skips procs cand ((start + sc) mod length procs)")
    case True
    then have "rr_scan procs cand start (Suc sc) n = Some idx"
      using Suc.prems by (simp add: Let_def)
    from Suc.IH [OF this] obtain k where k: "Suc sc \<le> k" "k < Suc sc + n"
      "idx = (start + k) mod length procs" "\<not> rr_skips procs cand idx"
      "\<forall>k'. Suc sc \<le> k' \<and> k' < k \<longrightarrow> rr_skips procs cand ((start + k') mod length procs)"
      by blast
    have "\<forall>k'. sc \<le> k' \<and> k' < k \<longrightarrow> rr_skips procs cand ((start + k') mod length procs)"
    proof (intro allI impI)
      fix k' assume k': "sc \<le> k' \<and> k' < k"
      show "rr_skips procs cand ((start + k') mod length procs)"
      proof (cases "k' = sc")
        case True
        then show ?thesis using \<open>rr_skips procs cand ((start + sc) mod length procs)\<close> by simp
      next
        case False
        then have "Suc sc \<le> k' \<and> k' < k" using k' by arith
        then show ?thesis using k(5) by blast
      qed
    qed
    then show ?thesis using k by (intro exI [of _ k]) auto
  next
    case False
    then have "idx = (start + sc) mod length procs" using Suc.prems by (simp add: Let_def)
    then show ?thesis using False by (intro exI [of _ sc]) auto
  qed
qed

lemma mod_cover:
  assumes "i < (m::nat)"
  shows "\<exists>k<m. (start + k) mod m = i"
proof -
  let ?k = "(i + m - start mod m) mod m"
  have "?k < m" using assms by simp
  moreover have "(start + ?k) mod m = i"
  proof -
    have "(start + ?k) mod m = (start mod m + (i + m - start mod m)) mod m"
      by (metis mod_add_left_eq mod_add_right_eq)
    also have "start mod m + (i + m - start mod m) = i + m"
      using assms by (simp add: less_imp_le_nat trans_le_add2)
    finally show ?thesis using assms by simp
  qed
  ultimately show ?thesis by blast
qed

lemma baseline_unfold:
  "baseline_select_next procs cur rr =
     (case rr_scan procs (current_candidate procs cur) (rr_start procs cur rr) 0 (length procs) of
        Some idx \<Rightarrow> (Slot idx, int idx)
      | None \<Rightarrow>
          (if current_candidate procs cur \<noteq> Null
           then (current_candidate procs cur,
                 if current_index procs cur \<ge> 0 then current_index procs cur else rr)
           else (Null, -1)))"
  by (simp add: baseline_select_next_def rr_start_def Let_def split: option.splits)

lemma candidate_cases:
  "current_candidate procs cur = (if ptr_runnable procs cur then cur else Null)"
  by (cases cur) (auto simp: current_candidate_def ptr_runnable_def ptr_state_def runnable_def)

lemma ptr_runnable_Null [simp]: "\<not> ptr_runnable procs Null"
  by (simp add: ptr_runnable_def ptr_state_def)

lemma scan_none_iff:
  assumes ne: "procs \<noteq> []" and v: "valid_ptr procs cur"
  shows "rr_scan procs (current_candidate procs cur) start 0 (length procs) = None
           \<longleftrightarrow> (\<forall>i. \<not> other_runnable procs cur i)"
proof
  assume n: "rr_scan procs (current_candidate procs cur) start 0 (length procs) = None"
  show "\<forall>i. \<not> other_runnable procs cur i"
  proof
    fix i
    show "\<not> other_runnable procs cur i"
    proof (cases "i < length procs")
      case False
      then show ?thesis by (simp add: other_runnable_def)
    next
      case True
      then obtain k where k: "k < length procs" "(start + k) mod length procs = i"
        using mod_cover by blast
      have "rr_skips procs (current_candidate procs cur) ((start + k) mod length procs)"
        using n k(1) by (simp add: rr_scan_None)
      then show ?thesis using rr_skips_iff [OF v True] k(2) by simp
    qed
  qed
next
  assume a: "\<forall>i. \<not> other_runnable procs cur i"
  have "\<And>k. (start + k) mod length procs < length procs" using ne by simp
  then show "rr_scan procs (current_candidate procs cur) start 0 (length procs) = None"
    using a rr_skips_iff [OF v] by (simp add: rr_scan_None)
qed

text \<open>
  C9. With a non-empty table: when some READY or RUNNING process other than the current
  one exists, \<open>baseline_select_next\<close> returns the first of them in the cyclic scan that
  starts right after the cursor, and moves the cursor there; when there is none and
  the current process is READY or RUNNING, it returns the current process; it returns
  null exactly when no process of the table and not the current one is READY or RUNNING.
\<close>

theorem baseline_select_next_spec:
  assumes ne: "procs \<noteq> []" and v: "valid_ptr procs cur" and c: "-1 \<le> rr"
  shows "((\<exists>i. other_runnable procs cur i) \<longrightarrow>
            (\<exists>k<length procs.
                baseline_select_next procs cur rr
                  = (Slot ((rr_start procs cur rr + k) mod length procs),
                     int ((rr_start procs cur rr + k) mod length procs))
              \<and> other_runnable procs cur ((rr_start procs cur rr + k) mod length procs)
              \<and> (\<forall>k'<k. \<not> other_runnable procs cur ((rr_start procs cur rr + k') mod length procs)))
            \<and> fst (baseline_select_next procs cur rr) \<noteq> cur)
       \<and> ((\<forall>i. \<not> other_runnable procs cur i) \<and> ptr_runnable procs cur
            \<longrightarrow> fst (baseline_select_next procs cur rr) = cur)
       \<and> (fst (baseline_select_next procs cur rr) = Null
            \<longleftrightarrow> (\<forall>i<length procs. \<not> runnable (pstate (procs ! i))) \<and> \<not> ptr_runnable procs cur)"
proof (intro conjI impI)
  assume ex: "\<exists>i. other_runnable procs cur i"
  let ?st = "rr_start procs cur rr"
  let ?cand = "current_candidate procs cur"
  have "rr_scan procs ?cand ?st 0 (length procs) \<noteq> None"
    using ex scan_none_iff [OF ne v] by simp
  then obtain idx where s: "rr_scan procs ?cand ?st 0 (length procs) = Some idx" by auto
  from rr_scan_Some [OF s] obtain k where k: "k < length procs"
    "idx = (?st + k) mod length procs" "\<not> rr_skips procs ?cand idx"
    "\<forall>k'. k' < k \<longrightarrow> rr_skips procs ?cand ((?st + k') mod length procs)"
    by auto
  have il: "\<And>j. (?st + j) mod length procs < length procs" using ne by simp
  have r: "baseline_select_next procs cur rr = (Slot idx, int idx)"
    using s by (simp add: baseline_unfold)
  have o: "other_runnable procs cur idx"
    using k(3) rr_skips_iff [OF v, of idx] il k(2) by simp
  have f: "\<forall>k'<k. \<not> other_runnable procs cur ((?st + k') mod length procs)"
    using k(4) rr_skips_iff [OF v] il by simp
  show "\<exists>k<length procs.
                baseline_select_next procs cur rr
                  = (Slot ((?st + k) mod length procs), int ((?st + k) mod length procs))
              \<and> other_runnable procs cur ((?st + k) mod length procs)
              \<and> (\<forall>k'<k. \<not> other_runnable procs cur ((?st + k') mod length procs))"
    using k(1) r o f unfolding k(2) by blast
  show "fst (baseline_select_next procs cur rr) \<noteq> cur"
    using r o by (auto simp: other_runnable_def)
next
  assume a: "(\<forall>i. \<not> other_runnable procs cur i) \<and> ptr_runnable procs cur"
  then have "rr_scan procs (current_candidate procs cur) (rr_start procs cur rr) 0 (length procs) = None"
    using scan_none_iff [OF ne v] by simp
  then show "fst (baseline_select_next procs cur rr) = cur"
    using a by (auto simp: baseline_unfold candidate_cases)
next
  have eq: "(\<forall>i. \<not> other_runnable procs cur i) \<and> \<not> ptr_runnable procs cur
        \<longleftrightarrow> (\<forall>i<length procs. \<not> runnable (pstate (procs ! i))) \<and> \<not> ptr_runnable procs cur"
    using v
    by (cases cur)
       (auto simp: other_runnable_def ptr_runnable_def ptr_state_def valid_ptr_def)
  have "fst (baseline_select_next procs cur rr) = Null
        \<longleftrightarrow> (\<forall>i. \<not> other_runnable procs cur i) \<and> \<not> ptr_runnable procs cur"
  proof (cases "rr_scan procs (current_candidate procs cur) (rr_start procs cur rr) 0 (length procs)")
    case None
    then have "\<forall>i. \<not> other_runnable procs cur i" using scan_none_iff [OF ne v] by simp
    then show ?thesis using None by (auto simp: baseline_unfold candidate_cases)
  next
    case (Some idx)
    then have "\<not> (\<forall>i. \<not> other_runnable procs cur i)"
      using scan_none_iff [OF ne v, of "rr_start procs cur rr"] by simp
    then show ?thesis using Some by (simp add: baseline_unfold)
  qed
  then show "fst (baseline_select_next procs cur rr) = Null
            \<longleftrightarrow> (\<forall>i<length procs. \<not> runnable (pstate (procs ! i))) \<and> \<not> ptr_runnable procs cur"
    using eq by simp
qed

theorem baseline_select_next_spec_witness:
  "demo_procs \<noteq> [] \<and> valid_ptr demo_procs (Slot 0) \<and> other_runnable demo_procs (Slot 0) 3
   \<and> baseline_select_next demo_procs (Slot 0) (-1) = (Slot 3, 3)
   \<and> ptr_runnable lone_procs (Slot 1)
   \<and> fst (baseline_select_next lone_procs (Slot 1) 0) = Slot 1
   \<and> \<not> ptr_runnable idle_procs Null
   \<and> fst (baseline_select_next idle_procs Null 1) = Null"
proof -
  have d: "demo_procs \<noteq> []" "valid_ptr demo_procs (Slot 0)" by code_simp+
  have o: "other_runnable demo_procs (Slot 0) 3" by code_simp
  have ex: "\<exists>i. other_runnable demo_procs (Slot 0) i" using o by blast
  have s: "(rr_start demo_procs (Slot 0) (-1) + 2) mod length demo_procs = 3" by code_simp
  have v: "baseline_select_next demo_procs (Slot 0) (-1) = (Slot 3, 3)" by code_simp
  have 0: "fst (baseline_select_next demo_procs (Slot 0) (-1)) \<noteq> Slot 0"
    using baseline_select_next_spec [OF d, of "-1"] ex by simp
  have l: "lone_procs \<noteq> []" "valid_ptr lone_procs (Slot 1)" by code_simp+
  have ll: "length lone_procs = 3" by code_simp
  have lo: "list_all (\<lambda>i. \<not> other_runnable lone_procs (Slot 1) i) [0..<3]" by code_simp
  have lo': "\<forall>i. \<not> other_runnable lone_procs (Slot 1) i"
  proof
    fix i show "\<not> other_runnable lone_procs (Slot 1) i"
    proof (cases "i < 3")
      case True
      then show ?thesis using lo by (simp add: list_all_iff)
    next
      case False
      then show ?thesis using ll by (simp add: other_runnable_def)
    qed
  qed
  have lr: "ptr_runnable lone_procs (Slot 1)" by code_simp
  have i: "idle_procs \<noteq> []" "valid_ptr idle_procs Null" by code_simp+
  have il: "length idle_procs = 2" by code_simp
  have ir: "\<not> ptr_runnable idle_procs Null" by simp
  have ia: "list_all (\<lambda>i. \<not> runnable (pstate (idle_procs ! i))) [0..<2]" by code_simp
  have ia': "\<forall>i<length idle_procs. \<not> runnable (pstate (idle_procs ! i))"
    using ia il by (simp add: list_all_iff)
  have 1: "fst (baseline_select_next lone_procs (Slot 1) 0) = Slot 1"
    using baseline_select_next_spec [OF l, of 0] lo' lr by simp
  have 2: "fst (baseline_select_next idle_procs Null 1) = Null"
    using baseline_select_next_spec [OF i, of 1] ia' ir by simp
  show ?thesis using d o v lr 1 2 ir by simp
qed

theorem affinity_nonzero_witness:
  "primary_data_region efficiency_on_node0 \<noteq> 0
   \<and> intent_mask (intent efficiency_on_node0)
        AND numa_cpu_mask (htas_get_numa_node_for_address (primary_data_region efficiency_on_node0)) = 0
   \<and> htas_calculate_affinity efficiency_on_node0 = 12
   \<and> fst (sys_sched_set_profile find_pid7 True 7 efficiency_on_node0 one_proc) = 0
   \<and> fst (sys_sched_set_profile find_pid7 False 7 efficiency_on_node0 one_proc) = -1
   \<and> fst (sys_sched_set_profile find_pid7 True 8 efficiency_on_node0 one_proc) = -1
   \<and> (\<exists>info. htas_info (snd (sys_sched_set_profile find_pid7 True 7 efficiency_on_node0 one_proc) ! 0)
                = Some info \<and> cpu_affinity_mask info \<noteq> 0)"
proof -
  have a: "primary_data_region efficiency_on_node0 \<noteq> 0" by code_simp
  have b: "intent_mask (intent efficiency_on_node0)
        AND numa_cpu_mask (htas_get_numa_node_for_address (primary_data_region efficiency_on_node0)) = 0"
    by code_simp
  have c: "intent_mask (intent efficiency_on_node0) = 12" by code_simp
  have r: "fst (sys_sched_set_profile find_pid7 True 7 efficiency_on_node0 one_proc) = 0"
    by code_simp
  have r2: "fst (sys_sched_set_profile find_pid7 False 7 efficiency_on_node0 one_proc) = -1"
    by code_simp
  have r3: "fst (sys_sched_set_profile find_pid7 True 8 efficiency_on_node0 one_proc) = -1"
    by code_simp
  have f: "find_pid7 7 = Some 0" "0 < length one_proc" by code_simp+
  have t: "htas_calculate_affinity efficiency_on_node0 = 12"
    using affinity_nonzero [of efficiency_on_node0] a b c by simp
  have e: "\<exists>info. htas_info (snd (sys_sched_set_profile find_pid7 True 7 efficiency_on_node0 one_proc) ! 0)
                = Some info \<and> cpu_affinity_mask info \<noteq> 0"
    using affinity_nonzero [of efficiency_on_node0 find_pid7 True 7 one_proc] r f by blast
  show ?thesis using a b t r r2 r3 e by blast
qed

section \<open>Properties of the workload simulator\<close>

lemma memset_stats_zero: "memset_stats st = zero_stats"
  by (simp add: memset_stats_def zero_stats_def)

lemma sim_init_tasks_const: "sim_init_tasks ctx = sim_init_tasks ctx'"
proof -
  have "ctx\<lparr>tasks := ts, last_task_on_cpu := l, latency_total_us := 0, latency_samples := 0,
            latency_max_us := 0, tick := 0, rr_index := 0, dynamic_stats := zero_stats\<rparr>
      = ctx'\<lparr>tasks := ts, last_task_on_cpu := l, latency_total_us := 0, latency_samples := 0,
            latency_max_us := 0, tick := 0, rr_index := 0, dynamic_stats := zero_stats\<rparr>"
    for ts l
    by simp
  then show ?thesis unfolding sim_init_tasks_def Let_def by (simp only:)
qed

lemma sim_start_const: "sim_start ctx0 stats0 = sim_start ctx1 stats1"
  using sim_init_tasks_const [of ctx0 ctx1]
  by (simp add: sim_start_def memset_stats_zero)

text \<open>
  C6. The statistics \<open>simulate_workload\<close> writes depend on the duration and the policy
  only: whatever the output record and the local context held before, two runs with the
  same duration and policy give records that are equal in every field.
\<close>

theorem simulate_workload_deterministic:
  "simulate_workload duration_ms ty stats0 ctx0 = simulate_workload duration_ms ty stats1 ctx1"
  using sim_start_const [of ctx0 stats0 ctx1 stats1]
  by (simp add: simulate_workload_def)

lemma intent_runtime_sum_add:
  "intent_runtime_sum (add_intent_runtime it st) = intent_runtime_sum st + of_nat SIM_TICK_US"
  by (cases it) (simp_all add: intent_runtime_sum_def add_intent_runtime_def)

lemma intent_runtime_sum_bump [simp]:
  "intent_runtime_sum (bump_intent_switches it st) = intent_runtime_sum st"
  by (cases it) (simp_all add: intent_runtime_sum_def bump_intent_switches_def)

lemma add_intent_runtime_fields [simp]:
  "pcore_time_us (add_intent_runtime it st) = pcore_time_us st"
  "ecore_time_us (add_intent_runtime it st) = ecore_time_us st"
  "context_switches (add_intent_runtime it st) = context_switches st"
  by (simp_all add: add_intent_runtime_def)

lemma bump_intent_switches_fields [simp]:
  "pcore_time_us (bump_intent_switches it st) = pcore_time_us st"
  "ecore_time_us (bump_intent_switches it st) = ecore_time_us st"
  "context_switches (bump_intent_switches it st) = context_switches st"
  by (simp_all add: bump_intent_switches_def)

lemma reset_and_infer_fields [simp]:
  "t_intent (reset_and_infer n t) = t_intent t"
  "preferred_numa (reset_and_infer n t) = preferred_numa t"
  "wait_time (reset_and_infer n t) = 0"
  "priority_boost_aging (reset_and_infer n t) = 0"
  "scheduled_this_tick (reset_and_infer n t) = True"
  by (simp_all add: reset_and_infer_def Let_def)

lemma consume_work_fields [simp]:
  "wait_time (consume_work t) = wait_time t"
  "priority_boost_aging (consume_work t) = priority_boost_aging t"
  "scheduled_this_tick (consume_work t) = scheduled_this_tick t"
  by (simp_all add: consume_work_def Let_def)

lemma sample_latency_fields [simp]:
  "tasks (sample_latency t ctx) = tasks ctx"
  "last_task_on_cpu (sample_latency t ctx) = last_task_on_cpu ctx"
  "tick (sample_latency t ctx) = tick ctx"
  "rr_index (sample_latency t ctx) = rr_index ctx"
  by (simp_all add: sample_latency_def Let_def)

text \<open>The statistics a busy CPU leaves behind.\<close>

lemma update_stats_busy:
  assumes "\<not> a < 0"
  shows "snd (sim_update_task_stats ctx st cpu a) =
     (let t = tasks ctx ! nat a;
          switched = (last_task_on_cpu ctx ! cpu \<noteq> a);
          penalty = (unat (preferred_numa t) < NUM_NUMA_NODES
                     \<and> preferred_numa t \<noteq> numa_node (g_cpu_topology ! cpu));
          s1 = (if switched
                then bump_intent_switches (t_intent t)
                       (st\<lparr>context_switches := context_switches st + 1\<rparr>)
                else st);
          s2 = add_intent_runtime (t_intent t) (account_power (type (g_cpu_topology ! cpu)) s1)
      in if penalty then s2\<lparr>numa_penalties := numa_penalties s2 + 1\<rparr> else s2)"
proof (cases "last_task_on_cpu ctx ! cpu \<noteq> a")
  case True
  then show ?thesis using assms by (simp add: sim_update_task_stats_def Let_def)
next
  case False
  then show ?thesis using assms by (simp add: sim_update_task_stats_def Let_def)
qed

lemma update_stats_idle:
  assumes "a < 0"
  shows "sim_update_task_stats ctx st cpu a =
     (ctx, st\<lparr>total_power_consumption := total_power_consumption st
                + (if type (g_cpu_topology ! cpu) = CPU_TYPE_PCORE then 30 else 20)\<rparr>)"
  using assms by (simp add: sim_update_task_stats_def Let_def)

lemma account_power_balance:
  "pcore_time_us (account_power ct st) + ecore_time_us (account_power ct st)
     = pcore_time_us st + ecore_time_us st + of_nat SIM_TICK_US"
  "intent_stats (account_power ct st) = intent_stats st"
  "context_switches (account_power ct st) = context_switches st"
  by (simp_all add: account_power_def Let_def)

lemma intent_runtime_sum_cong:
  "intent_stats st' = intent_stats st \<Longrightarrow> intent_runtime_sum st' = intent_runtime_sum st"
  by (simp add: intent_runtime_sum_def)

lemma update_balanced:
  assumes "runtime_balanced st"
  shows "runtime_balanced (snd (sim_update_task_stats ctx st cpu a))"
proof (cases "a < 0")
  case True
  then show ?thesis using assms
    by (simp add: update_stats_idle runtime_balanced_def intent_runtime_sum_def)
next
  case False
  let ?t = "tasks ctx ! nat a"
  let ?ct = "type (g_cpu_topology ! cpu)"
  have b: "runtime_balanced (add_intent_runtime it (account_power ?ct s))"
    if "runtime_balanced s" for s it
  proof -
    have "intent_runtime_sum (account_power ?ct s) = intent_runtime_sum s"
      by (rule intent_runtime_sum_cong) (simp add: account_power_balance)
    then show ?thesis using that account_power_balance(1) [of ?ct s]
      by (simp add: runtime_balanced_def intent_runtime_sum_add)
  qed
  have c: "runtime_balanced (bump_intent_switches it (st\<lparr>context_switches := x\<rparr>))" for it x
  proof -
    have "intent_runtime_sum (st\<lparr>context_switches := x\<rparr>) = intent_runtime_sum st"
      by (simp add: intent_runtime_sum_def)
    then show ?thesis using assms by (simp add: runtime_balanced_def)
  qed
  have p: "runtime_balanced (s\<lparr>numa_penalties := x\<rparr>)" if "runtime_balanced s" for s x
    using that by (simp add: runtime_balanced_def intent_runtime_sum_def)
  let ?s1 = "if last_task_on_cpu ctx ! cpu \<noteq> a
             then bump_intent_switches (t_intent ?t)
                    (st\<lparr>context_switches := context_switches st + 1\<rparr>)
             else st"
  have 1: "runtime_balanced ?s1" using assms c by simp
  have 2: "runtime_balanced (add_intent_runtime (t_intent ?t) (account_power ?ct ?s1))"
    using b [OF 1] .
  show ?thesis
    unfolding update_stats_busy [OF False] Let_def
    using 2 p [OF 2] by simp
qed

lemma update_cpus_balanced:
  "runtime_balanced (snd cs) \<Longrightarrow> runtime_balanced (snd (update_cpus cpu as cs))"
  by (induction as arbitrary: cpu cs) (simp_all add: update_balanced)

lemma sim_tick_balanced:
  assumes "runtime_balanced (snd cs)"
  shows "runtime_balanced (snd (sim_tick ty cs))"
proof -
  have "runtime_balanced ((snd cs)\<lparr>total_ticks := total_ticks (snd cs) + 1\<rparr>)"
    using assms by (simp add: runtime_balanced_def intent_runtime_sum_def)
  then show ?thesis by (simp add: sim_tick_def Let_def update_cpus_balanced)
qed

lemma sim_run_balanced:
  "runtime_balanced (snd cs) \<Longrightarrow> runtime_balanced (snd (sim_run ty n cs))"
  by (induction n) (simp_all add: Let_def sim_tick_balanced)

lemma write_latency_balanced:
  "runtime_balanced st \<Longrightarrow> runtime_balanced (write_latency ctx st)"
  by (simp add: runtime_balanced_def write_latency_def intent_runtime_sum_def Let_def)

lemma start_balanced: "runtime_balanced (snd (sim_start ctx0 stats0))"
  by (simp add: sim_start_def memset_stats_zero zero_stats_def runtime_balanced_def
      intent_runtime_sum_def zero_intent_stat_def)

text \<open>
  C5. Under every policy, after any number of ticks and in the final record, the four
  per-intent \<open>runtime_us\<close> counters add up to \<open>pcore_time_us + ecore_time_us\<close>.
\<close>

theorem intent_runtime_matches_residency:
  "runtime_us (intent_stats (snd (sim_run ty n (sim_start ctx0 stats0))) PROFILE_PERFORMANCE)
   + runtime_us (intent_stats (snd (sim_run ty n (sim_start ctx0 stats0))) PROFILE_EFFICIENCY)
   + runtime_us (intent_stats (snd (sim_run ty n (sim_start ctx0 stats0))) PROFILE_LOW_LATENCY)
   + runtime_us (intent_stats (snd (sim_run ty n (sim_start ctx0 stats0))) PROFILE_DEFAULT)
   = pcore_time_us (snd (sim_run ty n (sim_start ctx0 stats0)))
     + ecore_time_us (snd (sim_run ty n (sim_start ctx0 stats0)))
   \<and> runtime_us (intent_stats (simulate_workload d ty stats0 ctx0) PROFILE_PERFORMANCE)
   + runtime_us (intent_stats (simulate_workload d ty stats0 ctx0) PROFILE_EFFICIENCY)
   + runtime_us (intent_stats (simulate_workload d ty stats0 ctx0) PROFILE_LOW_LATENCY)
   + runtime_us (intent_stats (simulate_workload d ty stats0 ctx0) PROFILE_DEFAULT)
   = pcore_time_us (simulate_workload d ty stats0 ctx0)
     + ecore_time_us (simulate_workload d ty stats0 ctx0)"
proof -
  have 1: "runtime_balanced (snd (sim_run ty n (sim_start ctx0 stats0)))" for n
    using sim_run_balanced [OF start_balanced] .
  have 2: "runtime_balanced (simulate_workload d ty stats0 ctx0)"
    using write_latency_balanced [OF 1] by (simp add: simulate_workload_def Let_def)
  show ?thesis using 1 [of n] 2 by (simp add: runtime_balanced_def intent_runtime_sum_def)
qed

subsection \<open>What the selection leaves alone\<close>

lemma mark_selected_fields [simp]:
  "last_task_on_cpu (mark_selected ctx b) = last_task_on_cpu ctx"
  "tick (mark_selected ctx b) = tick ctx"
  "length (tasks (mark_selected ctx b)) = length (tasks ctx)"
  by (simp_all add: mark_selected_def)

lemma rr_try_last [simp]:
  "last_task_on_cpu (fst (rr_try ctx a n)) = last_task_on_cpu ctx"
  by (induction n arbitrary: a) (simp_all add: Let_def)

lemma select_task_last [simp]:
  "last_task_on_cpu (fst (select_task ty ctx cpu)) = last_task_on_cpu ctx"
  by (simp add: select_task_def sim_select_task_htas_def sim_select_task_dynamic_def
      sim_select_task_round_robin_def Let_def)

lemma select_cpus_last [simp]:
  "last_task_on_cpu (fst (select_cpus ty cpus ctx)) = last_task_on_cpu ctx"
  by (induction cpus arbitrary: ctx) (simp_all add: Let_def)

lemma select_cpus_length [simp]: "length (snd (select_cpus ty cpus ctx)) = length cpus"
  by (induction cpus arbitrary: ctx) (simp_all add: Let_def)

lemma assigned_of_length [simp]: "length (assigned_of ty ctx) = NUM_CPUS"
  by (simp add: assigned_of_def)

subsection \<open>What one update does to the switch counter and to the last task\<close>

lemma update_last:
  "last_task_on_cpu (fst (sim_update_task_stats ctx st cpu a))
     = (if a < 0 then last_task_on_cpu ctx else (last_task_on_cpu ctx)[cpu := a])"
proof (cases "a < 0")
  case True
  then show ?thesis by (simp add: update_stats_idle)
next
  case False
  show ?thesis
  proof (cases "last_task_on_cpu ctx ! cpu = a")
    case True
    then have "(last_task_on_cpu ctx)[cpu := a] = last_task_on_cpu ctx"
      by (metis list_update_id)
    then show ?thesis using False True by (simp add: sim_update_task_stats_def Let_def)
  next
    case ne: False
    then show ?thesis using False by (simp add: sim_update_task_stats_def Let_def)
  qed
qed

lemma update_switches:
  "context_switches (snd (sim_update_task_stats ctx st cpu a))
     = context_switches st + (if 0 \<le> a \<and> a \<noteq> last_task_on_cpu ctx ! cpu then 1 else 0)"
proof (cases "a < 0")
  case True
  then show ?thesis by (simp add: update_stats_idle)
next
  case False
  then show ?thesis
    by (simp add: update_stats_busy Let_def account_power_balance)
qed

text \<open>The four updates of a tick, written out.\<close>

lemma update_cpus_four:
  assumes l: "length (last_task_on_cpu (fst cs)) = 4"
  shows "last_task_on_cpu (fst (update_cpus 0 [a0, a1, a2, a3] cs))
           = map (\<lambda>c. if [a0, a1, a2, a3] ! c < 0 then last_task_on_cpu (fst cs) ! c
                       else [a0, a1, a2, a3] ! c) [0..<4]"
    and "context_switches (snd (update_cpus 0 [a0, a1, a2, a3] cs))
           = context_switches (snd cs)
             + of_nat (length (filter
                 (\<lambda>c. 0 \<le> [a0, a1, a2, a3] ! c
                      \<and> [a0, a1, a2, a3] ! c \<noteq> last_task_on_cpu (fst cs) ! c) [0..<4]))"
proof -
  obtain l0 l1 l2 l3 where ll: "last_task_on_cpu (fst cs) = [l0, l1, l2, l3]"
    using l by (auto simp: numeral_eq_Suc length_Suc_conv)
  have u: "[0..<4] = [0, 1, 2, 3]" by (simp add: upt_rec)
  show "last_task_on_cpu (fst (update_cpus 0 [a0, a1, a2, a3] cs))
           = map (\<lambda>c. if [a0, a1, a2, a3] ! c < 0 then last_task_on_cpu (fst cs) ! c
                       else [a0, a1, a2, a3] ! c) [0..<4]"
    by (simp add: update_last ll u)
  show "context_switches (snd (update_cpus 0 [a0, a1, a2, a3] cs))
           = context_switches (snd cs)
             + of_nat (length (filter
                 (\<lambda>c. 0 \<le> [a0, a1, a2, a3] ! c
                      \<and> [a0, a1, a2, a3] ! c \<noteq> last_task_on_cpu (fst cs) ! c) [0..<4]))"
    by (simp add: update_switches update_last ll u)
qed

lemma sim_prepare_tick_fields [simp]:
  "last_task_on_cpu (sim_prepare_tick ctx) = last_task_on_cpu ctx"
  "tick (sim_prepare_tick ctx) = tick ctx"
  "length (tasks (sim_prepare_tick ctx)) = length (tasks ctx)"
  by (simp_all add: sim_prepare_tick_def)

lemma sim_finalize_tick_fields [simp]:
  "last_task_on_cpu (sim_finalize_tick ctx) = last_task_on_cpu ctx"
  "tick (sim_finalize_tick ctx) = tick ctx"
  "length (tasks (sim_finalize_tick ctx)) = length (tasks ctx)"
  by (simp_all add: sim_finalize_tick_def)

lemma list_of_four: "length xs = 4 \<Longrightarrow> \<exists>x0 x1 x2 x3. xs = [x0, x1, x2, x3]"
  by (auto simp: numeral_eq_Suc length_Suc_conv)

lemma sim_tick_last_switches:
  assumes l: "length (last_task_on_cpu (fst cs)) = 4"
  shows "last_task_on_cpu (fst (sim_tick ty cs))
           = map (\<lambda>c. if assigned_of ty (fst cs) ! c < 0 then last_task_on_cpu (fst cs) ! c
                       else assigned_of ty (fst cs) ! c) [0..<4]"
    and "context_switches (snd (sim_tick ty cs))
           = context_switches (snd cs)
             + of_nat (length (filter
                 (\<lambda>c. 0 \<le> assigned_of ty (fst cs) ! c
                      \<and> assigned_of ty (fst cs) ! c \<noteq> last_task_on_cpu (fst cs) ! c) [0..<4]))"
proof -
  let ?sel = "select_cpus ty [0..<NUM_CPUS] (sim_prepare_tick (fst cs))"
  let ?st = "(snd cs)\<lparr>total_ticks := total_ticks (snd cs) + 1\<rparr>"
  obtain a0 a1 a2 a3 where a: "assigned_of ty (fst cs) = [a0, a1, a2, a3]"
    using list_of_four [of "assigned_of ty (fst cs)"] by (auto simp: NUM_CPUS_def)
  have s: "snd ?sel = [a0, a1, a2, a3]" using a by (simp add: assigned_of_def)
  have l': "length (last_task_on_cpu (fst (fst ?sel, ?st))) = 4" using l by simp
  have t: "sim_tick ty cs
           = (sim_finalize_tick (fst (update_cpus 0 [a0, a1, a2, a3] (fst ?sel, ?st))),
              snd (update_cpus 0 [a0, a1, a2, a3] (fst ?sel, ?st)))"
    using s by (simp add: sim_tick_def Let_def)
  show "last_task_on_cpu (fst (sim_tick ty cs))
           = map (\<lambda>c. if assigned_of ty (fst cs) ! c < 0 then last_task_on_cpu (fst cs) ! c
                       else assigned_of ty (fst cs) ! c) [0..<4]"
    unfolding t a using update_cpus_four(1) [OF l', of a0 a1 a2 a3] by simp
  show "context_switches (snd (sim_tick ty cs))
           = context_switches (snd cs)
             + of_nat (length (filter
                 (\<lambda>c. 0 \<le> assigned_of ty (fst cs) ! c
                      \<and> assigned_of ty (fst cs) ! c \<noteq> last_task_on_cpu (fst cs) ! c) [0..<4]))"
    unfolding t a using update_cpus_four(2) [OF l', of a0 a1 a2 a3] by simp
qed

lemma run_switch_inv:
  assumes l0: "last_task_on_cpu (fst cs0) = replicate NUM_CPUS (-1)"
    and c0: "context_switches (snd cs0) = 0"
  shows "length (last_task_on_cpu (fst (sim_run ty n cs0))) = 4
       \<and> (\<forall>c<4. last_task_on_cpu (fst (sim_run ty n cs0)) ! c = last_task_before ty cs0 c n)
       \<and> context_switches (snd (sim_run ty n cs0)) = of_nat (switch_cells ty cs0 n)"
proof (induction n)
  case 0
  show ?case using l0 c0 by (simp add: NUM_CPUS_def)
next
  case (Suc n)
  let ?cs = "sim_run ty n cs0"
  have l: "length (last_task_on_cpu (fst ?cs)) = 4" using Suc.IH by simp
  have lb: "\<And>c. c < 4 \<Longrightarrow> last_task_on_cpu (fst ?cs) ! c = last_task_before ty cs0 c n"
    using Suc.IH by simp
  have a: "assigned_of ty (fst ?cs) = assigned_at ty cs0 n" by (simp add: assigned_at_def)
  have r: "sim_run ty (Suc n) cs0
           = ((fst (sim_tick ty ?cs))\<lparr>tick := tick (fst (sim_tick ty ?cs)) + 1\<rparr>,
              snd (sim_tick ty ?cs))"
    by (simp add: Let_def)
  have last': "last_task_on_cpu (fst (sim_run ty (Suc n) cs0))
           = map (\<lambda>c. if assigned_at ty cs0 n ! c < 0 then last_task_on_cpu (fst ?cs) ! c
                       else assigned_at ty cs0 n ! c) [0..<4]"
    unfolding r using sim_tick_last_switches(1) [OF l, of ty] a by simp
  have f: "filter (\<lambda>c. 0 \<le> assigned_at ty cs0 n ! c
                      \<and> assigned_at ty cs0 n ! c \<noteq> last_task_on_cpu (fst ?cs) ! c) [0..<4]
           = filter (switch_cell ty cs0 n) [0..<NUM_CPUS]"
    unfolding NUM_CPUS_def by (rule filter_cong) (auto simp: switch_cell_def lb)
  have sw': "context_switches (snd (sim_run ty (Suc n) cs0))
           = of_nat (switch_cells ty cs0 (Suc n))"
    unfolding r using sim_tick_last_switches(2) [OF l, of ty] a f Suc.IH by simp
  show ?case
  proof (intro conjI allI impI)
    show "length (last_task_on_cpu (fst (sim_run ty (Suc n) cs0))) = 4" using last' by simp
  next
    fix c :: nat assume c: "c < 4"
    show "last_task_on_cpu (fst (sim_run ty (Suc n) cs0)) ! c = last_task_before ty cs0 c (Suc n)"
      unfolding last' using c lb by simp
  next
    show "context_switches (snd (sim_run ty (Suc n) cs0)) = of_nat (switch_cells ty cs0 (Suc n))"
      using sw' .
  qed
qed

lemma switch_cells_bound: "switch_cells ty cs0 n \<le> 4 * n"
proof (induction n)
  case 0
  show ?case by simp
next
  case (Suc n)
  have "length (filter (switch_cell ty cs0 n) [0..<NUM_CPUS]) \<le> 4"
    using length_filter_le [of "switch_cell ty cs0 n" "[0..<NUM_CPUS]"] by (simp add: NUM_CPUS_def)
  then show ?case using Suc.IH by simp
qed

lemma start_switch_facts:
  "last_task_on_cpu (fst (sim_start ctx0 stats0)) = replicate NUM_CPUS (-1)"
  "context_switches (snd (sim_start ctx0 stats0)) = 0"
  by (simp_all add: sim_start_def sim_init_tasks_def Let_def memset_stats_zero zero_stats_def
      NUM_CPUS_def upt_rec numeral_eq_Suc)

lemma write_latency_switches [simp]:
  "context_switches (write_latency ctx st) = context_switches st"
  by (simp add: write_latency_def Let_def)

text \<open>
  C4, as the code counts. For every policy and duration the final \<open>context_switches\<close>
  is the number of cells \<open>(cpu, tick)\<close> in which a task is assigned that differs from
  the task this CPU ran most recently (idle ticks in between are skipped; the first
  task on a CPU counts).
\<close>

theorem context_switches_count:
  "unat (context_switches (simulate_workload d ty stats0 ctx0))
     = switch_cells ty (sim_start ctx0 stats0) (unat d)"
proof -
  let ?n = "switch_cells ty (sim_start ctx0 stats0) (unat d)"
  have "context_switches (simulate_workload d ty stats0 ctx0) = of_nat ?n"
    using run_switch_inv [OF start_switch_facts, where ty = ty and n = "unat d"
        and ?ctx0.1 = ctx0 and ?stats0.1 = stats0]
    by (simp add: simulate_workload_def Let_def)
  moreover have "?n < 2 ^ 64"
  proof -
    have "unat d < 2 ^ 32" using unsigned_less [of d, where ?'a = nat] by simp
    then have "4 * unat d < 2 ^ 64" by simp
    then show ?thesis using switch_cells_bound [of ty "sim_start ctx0 stats0" "unat d"] by simp
  qed
  ultimately show ?thesis by (simp add: unat_of_nat take_bit_nat_eq_self)
qed

theorem context_switches_count_witness:
  "unat (context_switches (simulate_workload 4 SCHED_BASELINE zero_stats garbage_ctx)) = 11
   \<and> switch_cells SCHED_BASELINE (sim_start garbage_ctx zero_stats) 4 = 11"
proof -
  have "unat (context_switches (simulate_workload 4 SCHED_BASELINE zero_stats garbage_ctx)) = 11"
    by code_simp
  then show ?thesis
    using context_switches_count [of 4 SCHED_BASELINE zero_stats garbage_ctx] by simp
qed

text \<open>
  C4 with an idle CPU taken as an assignment of its own fails: in four ticks of the
  round-robin policy CPU 3 goes from task 1 to idle at tick 3, which changes the
  assignment but not the counter (11 against 12 changed cells).
\<close>

theorem context_switches_idle_counterexample:
  "unat (context_switches (simulate_workload 4 SCHED_BASELINE zero_stats garbage_ctx)) = 11
   \<and> changed_cells SCHED_BASELINE (sim_start garbage_ctx zero_stats) 4 = 12
   \<and> assigned_at SCHED_BASELINE (sim_start garbage_ctx zero_stats) 2 ! 3 = 1
   \<and> assigned_at SCHED_BASELINE (sim_start garbage_ctx zero_stats) 3 ! 3 = -1"
  by code_simp




subsection \<open>The selection changes the selected mark only\<close>

lemma map_update_same:
  "map f (xs[i := y]) = map f xs" if "f y = f (xs ! i)"
proof (cases "i < length xs")
  case True
  then show ?thesis using that by (simp add: map_update list_update_same_conv)
next
  case False
  then have "xs[i := y] = xs" by (simp add: list_update_beyond)
  then show ?thesis by simp
qed

lemma mark_selected_view [simp]:
  "map aging_view (tasks (mark_selected ctx b)) = map aging_view (tasks ctx)"
  by (simp add: mark_selected_def map_update_same aging_view_def)

lemma rr_try_view [simp]:
  "map aging_view (tasks (fst (rr_try ctx a n))) = map aging_view (tasks ctx)"
  by (induction n arbitrary: a) (simp_all add: Let_def map_update_same aging_view_def)

lemma select_task_view [simp]:
  "map aging_view (tasks (fst (select_task ty ctx cpu))) = map aging_view (tasks ctx)"
  by (simp add: select_task_def sim_select_task_htas_def sim_select_task_dynamic_def
      sim_select_task_round_robin_def Let_def)

lemma select_cpus_view [simp]:
  "map aging_view (tasks (fst (select_cpus ty cpus ctx))) = map aging_view (tasks ctx)"
  by (induction cpus arbitrary: ctx) (simp_all add: Let_def)

lemma view_nth:
  assumes "map aging_view xs = map aging_view ys" "i < length ys"
  shows "aging_view (xs ! i) = aging_view (ys ! i)" "length xs = length ys"
proof -
  show l: "length xs = length ys" using assms(1) by (rule map_eq_imp_length_eq)
  have "map aging_view xs ! i = map aging_view ys ! i" using assms(1) by simp
  then show "aging_view (xs ! i) = aging_view (ys ! i)" using assms(2) l by simp
qed

subsection \<open>The update clears the aging of the task it runs\<close>

lemma update_tasks_idle: "a < 0 \<Longrightarrow> tasks (fst (sim_update_task_stats ctx st cpu a)) = tasks ctx"
  by (simp add: update_stats_idle)

lemma update_tasks_busy:
  assumes "\<not> a < 0"
  shows "length (tasks (fst (sim_update_task_stats ctx st cpu a))) = length (tasks ctx)"
    and "i \<noteq> nat a \<Longrightarrow> tasks (fst (sim_update_task_stats ctx st cpu a)) ! i = tasks ctx ! i"
    and "nat a < length (tasks ctx) \<Longrightarrow> has_run (tasks (fst (sim_update_task_stats ctx st cpu a)) ! nat a)"
  using assms by (simp_all add: sim_update_task_stats_def Let_def has_run_def)

lemma update_cpus_tasks:
  "length (tasks (fst (update_cpus cpu as cs))) = length (tasks (fst cs))
   \<and> (\<forall>i<length (tasks (fst cs)).
         (int i \<in> set as \<or> has_run (tasks (fst cs) ! i) \<longrightarrow> has_run (tasks (fst (update_cpus cpu as cs)) ! i))
       \<and> (int i \<notin> set as \<longrightarrow> tasks (fst (update_cpus cpu as cs)) ! i = tasks (fst cs) ! i))"
proof (induction as arbitrary: cpu cs)
  case Nil
  show ?case by simp
next
  case (Cons a as)
  let ?cs1 = "sim_update_task_stats (fst cs) (snd cs) cpu a"
  have one: "length (tasks (fst ?cs1)) = length (tasks (fst cs))
     \<and> (\<forall>i<length (tasks (fst cs)).
           (int i = a \<or> has_run (tasks (fst cs) ! i) \<longrightarrow> has_run (tasks (fst ?cs1) ! i))
         \<and> (int i \<noteq> a \<longrightarrow> tasks (fst ?cs1) ! i = tasks (fst cs) ! i))"
  proof (cases "a < 0")
    case True
    then show ?thesis by (auto simp: update_tasks_idle)
  next
    case False
    have na: "\<And>i. int i = a \<longleftrightarrow> i = nat a" using False by auto
    note b = update_tasks_busy [OF False, where ctx = "fst cs" and st = "snd cs" and cpu = cpu]
    show ?thesis
    proof (intro conjI allI impI)
      show "length (tasks (fst ?cs1)) = length (tasks (fst cs))" by (rule b(1))
    next
      fix i assume i: "i < length (tasks (fst cs))"
        and h: "int i = a \<or> has_run (tasks (fst cs) ! i)"
      show "has_run (tasks (fst ?cs1) ! i)"
      proof (cases "i = nat a")
        case True
        then show ?thesis using b(3) i by simp
      next
        case ne: False
        then show ?thesis using b(2) [of i] h na by simp
      qed
    next
      fix i assume "i < length (tasks (fst cs))" and "int i \<noteq> a"
      then show "tasks (fst ?cs1) ! i = tasks (fst cs) ! i" using b(2) [of i] na by simp
    qed
  qed
  have ih: "length (tasks (fst (update_cpus (Suc cpu) as ?cs1))) = length (tasks (fst ?cs1))
   \<and> (\<forall>i<length (tasks (fst ?cs1)).
         (int i \<in> set as \<or> has_run (tasks (fst ?cs1) ! i)
            \<longrightarrow> has_run (tasks (fst (update_cpus (Suc cpu) as ?cs1)) ! i))
       \<and> (int i \<notin> set as \<longrightarrow> tasks (fst (update_cpus (Suc cpu) as ?cs1)) ! i = tasks (fst ?cs1) ! i))"
    using Cons.IH [of "Suc cpu" ?cs1] .
  have u: "update_cpus cpu (a # as) cs = update_cpus (Suc cpu) as ?cs1" by simp
  show ?case unfolding u using one ih by (simp only: set_simps insert_iff) metis
qed

subsection \<open>What the last loop does with a task\<close>

lemma finalize_ran:
  "has_run t \<Longrightarrow> wait_time (finalize_task t) = 0 \<and> priority_boost_aging (finalize_task t) = 0"
  by (simp add: finalize_task_def has_run_def Let_def)

lemma finalize_waiting:
  assumes "ready t" "\<not> scheduled_this_tick t"
  shows "wait_time (finalize_task t) = wait_time t + 1"
    and "priority_boost_aging (finalize_task t)
           = (if unat (wait_time t + 1) > AGING_THRESHOLD then AGING_PRIORITY_BOOST
              else priority_boost_aging t)"
  using assms by (simp_all add: finalize_task_def Let_def)

lemma finalize_not_ready:
  assumes "\<not> ready t"
  shows "wait_time (finalize_task t) = wait_time t"
    and "priority_boost_aging (finalize_task t) = priority_boost_aging t"
  using assms by (simp_all add: finalize_task_def Let_def)

lemma prepare_task_fields [simp]:
  "wait_time (prepare_task t) = wait_time t"
  "priority_boost_aging (prepare_task t) = priority_boost_aging t"
  "scheduled_this_tick (prepare_task t) = False"
  by (simp_all add: prepare_task_def Let_def)

lemma sim_tick_task:
  assumes len: "length (tasks ctx) = SIM_TASK_COUNT" and i: "i < SIM_TASK_COUNT"
  shows "length (tasks (fst (sim_tick ty (ctx, st)))) = SIM_TASK_COUNT"
    and "int i \<in> set (assigned_of ty ctx) \<Longrightarrow>
           wait_time (tasks (fst (sim_tick ty (ctx, st))) ! i) = 0
         \<and> priority_boost_aging (tasks (fst (sim_tick ty (ctx, st))) ! i) = 0"
    and "int i \<notin> set (assigned_of ty ctx) \<Longrightarrow> ready (tasks (sim_prepare_tick ctx) ! i) \<Longrightarrow>
           wait_time (tasks (fst (sim_tick ty (ctx, st))) ! i) = wait_time (tasks ctx ! i) + 1
         \<and> priority_boost_aging (tasks (fst (sim_tick ty (ctx, st))) ! i)
             = (if unat (wait_time (tasks ctx ! i) + 1) > AGING_THRESHOLD
                then AGING_PRIORITY_BOOST else priority_boost_aging (tasks ctx ! i))"
    and "int i \<notin> set (assigned_of ty ctx) \<Longrightarrow> \<not> ready (tasks (sim_prepare_tick ctx) ! i) \<Longrightarrow>
           wait_time (tasks (fst (sim_tick ty (ctx, st))) ! i) = wait_time (tasks ctx ! i)
         \<and> priority_boost_aging (tasks (fst (sim_tick ty (ctx, st))) ! i)
             = priority_boost_aging (tasks ctx ! i)"
proof -
  let ?ctx1 = "sim_prepare_tick ctx"
  let ?sel = "select_cpus ty [0..<NUM_CPUS] ?ctx1"
  let ?st1 = "st\<lparr>total_ticks := total_ticks st + 1\<rparr>"
  let ?upd = "update_cpus 0 (snd ?sel) (fst ?sel, ?st1)"
  let ?A = "assigned_of ty ctx"
  have il: "i < length (tasks ctx)" using len i by simp
  have A: "snd ?sel = ?A" by (simp add: assigned_of_def)
  have t: "fst (sim_tick ty (ctx, st)) = sim_finalize_tick (fst ?upd)"
    by (simp add: sim_tick_def Let_def)
  have p: "tasks ?ctx1 ! i = prepare_task (tasks ctx ! i)" "length (tasks ?ctx1) = length (tasks ctx)"
    using il by (simp_all add: sim_prepare_tick_def)
  have v: "aging_view (tasks (fst ?sel) ! i) = aging_view (tasks ?ctx1 ! i)"
    and sl: "length (tasks (fst ?sel)) = length (tasks ?ctx1)"
    using view_nth [of "tasks (fst ?sel)" "tasks ?ctx1" i] il p(2) by simp_all
  have isl: "i < length (tasks (fst ?sel))" using sl p(2) il by simp
  have u: "length (tasks (fst ?upd)) = length (tasks (fst ?sel))"
    "int i \<in> set ?A \<Longrightarrow> has_run (tasks (fst ?upd) ! i)"
    "int i \<notin> set ?A \<Longrightarrow> tasks (fst ?upd) ! i = tasks (fst ?sel) ! i"
    using update_cpus_tasks [of 0 "snd ?sel" "(fst ?sel, ?st1)"] isl A by simp_all
  have f: "tasks (fst (sim_tick ty (ctx, st))) ! i = finalize_task (tasks (fst ?upd) ! i)"
    unfolding t using u(1) isl by (simp add: sim_finalize_tick_def)
  show "length (tasks (fst (sim_tick ty (ctx, st)))) = SIM_TASK_COUNT"
    unfolding t using u(1) sl p(2) len by (simp add: sim_finalize_tick_def)
  show "int i \<in> set ?A \<Longrightarrow>
           wait_time (tasks (fst (sim_tick ty (ctx, st))) ! i) = 0
         \<and> priority_boost_aging (tasks (fst (sim_tick ty (ctx, st))) ! i) = 0"
    unfolding f using u(2) finalize_ran by simp
  have s: "ready (tasks (fst ?sel) ! i) = ready (tasks ?ctx1 ! i)"
    "scheduled_this_tick (tasks (fst ?sel) ! i) = False"
    "wait_time (tasks (fst ?sel) ! i) = wait_time (tasks ctx ! i)"
    "priority_boost_aging (tasks (fst ?sel) ! i) = priority_boost_aging (tasks ctx ! i)"
    using v p(1) by (simp_all add: aging_view_def)
  show "int i \<notin> set ?A \<Longrightarrow> ready (tasks ?ctx1 ! i) \<Longrightarrow>
           wait_time (tasks (fst (sim_tick ty (ctx, st))) ! i) = wait_time (tasks ctx ! i) + 1
         \<and> priority_boost_aging (tasks (fst (sim_tick ty (ctx, st))) ! i)
             = (if unat (wait_time (tasks ctx ! i) + 1) > AGING_THRESHOLD
                then AGING_PRIORITY_BOOST else priority_boost_aging (tasks ctx ! i))"
    unfolding f using u(3) s finalize_waiting [of "tasks (fst ?sel) ! i"] by simp
  show "int i \<notin> set ?A \<Longrightarrow> \<not> ready (tasks ?ctx1 ! i) \<Longrightarrow>
           wait_time (tasks (fst (sim_tick ty (ctx, st))) ! i) = wait_time (tasks ctx ! i)
         \<and> priority_boost_aging (tasks (fst (sim_tick ty (ctx, st))) ! i)
             = priority_boost_aging (tasks ctx ! i)"
    unfolding f using u(3) s finalize_not_ready [of "tasks (fst ?sel) ! i"] by simp
qed

lemma sim_tick_aging_inv:
  assumes "aging_inv ctx"
  shows "aging_inv (fst (sim_tick ty (ctx, st)))"
proof -
  have len: "length (tasks ctx) = SIM_TASK_COUNT" using assms by (simp add: aging_inv_def)
  have "unat (wait_time (tasks (fst (sim_tick ty (ctx, st))) ! i)) > AGING_THRESHOLD
          \<longrightarrow> priority_boost_aging (tasks (fst (sim_tick ty (ctx, st))) ! i) = AGING_PRIORITY_BOOST"
    if i: "i < SIM_TASK_COUNT" for i
  proof -
    have old: "unat (wait_time (tasks ctx ! i)) > AGING_THRESHOLD
          \<longrightarrow> priority_boost_aging (tasks ctx ! i) = AGING_PRIORITY_BOOST"
      using assms i by (simp add: aging_inv_def)
    note t = sim_tick_task [OF len i, of ty st]
    show ?thesis
    proof (cases "int i \<in> set (assigned_of ty ctx)")
      case True
      then show ?thesis using t(2) by (simp add: AGING_THRESHOLD_def)
    next
      case False
      then show ?thesis using t(3) t(4) old
        by (cases "ready (tasks (sim_prepare_tick ctx) ! i)") simp_all
    qed
  qed
  then show ?thesis using sim_tick_task(1) [OF len, of 0 ty st]
    by (simp add: aging_inv_def SIM_TASK_COUNT_def)
qed

lemma sim_run_aging_inv:
  "aging_inv (fst cs) \<Longrightarrow> aging_inv (fst (sim_run ty n cs))"
proof (induction n)
  case 0
  then show ?case by simp
next
  case (Suc n)
  have "aging_inv (fst (sim_tick ty (fst (sim_run ty n cs), snd (sim_run ty n cs))))"
    using sim_tick_aging_inv [OF Suc.IH [OF Suc.prems]] .
  then show ?case by (simp add: Let_def aging_inv_def)
qed

lemma start_aging_inv: "aging_inv (fst (sim_start ctx0 stats0))"
proof -
  have l: "length (tasks (fst start0)) = SIM_TASK_COUNT" by code_simp
  have w: "list_all (\<lambda>t. wait_time t = 0) (tasks (fst start0))" by code_simp
  have e: "sim_start ctx0 stats0 = start0" unfolding start0_def by (rule sim_start_const)
  have "\<And>i. i < SIM_TASK_COUNT \<Longrightarrow> wait_time (tasks (fst start0) ! i) = 0"
    using w l by (simp add: list_all_length)
  then show ?thesis unfolding e aging_inv_def using l by (simp add: AGING_THRESHOLD_def)
qed

text \<open>
  C3. In any context with eight tasks and under every policy, one tick increments
  \<open>wait_time\<close> of a task that was ready and was not scheduled, and sets its
  \<open>priority_boost_aging\<close> to AGING_PRIORITY_BOOST once \<open>wait_time\<close> exceeds
  AGING_THRESHOLD; a scheduled task has both fields reset to 0. Hence a tick keeps
  "waited beyond the threshold implies boosted" for all tasks, and this holds after
  every number of ticks of a run.
\<close>

theorem sim_aging:
  assumes len: "length (tasks ctx) = SIM_TASK_COUNT" and i: "i < SIM_TASK_COUNT"
  shows "(ready (tasks (sim_prepare_tick ctx) ! i) \<and> int i \<notin> set (assigned_of ty ctx) \<longrightarrow>
            wait_time (tasks (fst (sim_tick ty (ctx, st))) ! i) = wait_time (tasks ctx ! i) + 1
          \<and> priority_boost_aging (tasks (fst (sim_tick ty (ctx, st))) ! i)
              = (if unat (wait_time (tasks ctx ! i) + 1) > AGING_THRESHOLD
                 then AGING_PRIORITY_BOOST else priority_boost_aging (tasks ctx ! i))
          \<and> (unat (wait_time (tasks (fst (sim_tick ty (ctx, st))) ! i)) > AGING_THRESHOLD
               \<longrightarrow> priority_boost_aging (tasks (fst (sim_tick ty (ctx, st))) ! i)
                     = AGING_PRIORITY_BOOST))
       \<and> (int i \<in> set (assigned_of ty ctx) \<longrightarrow>
            wait_time (tasks (fst (sim_tick ty (ctx, st))) ! i) = 0
          \<and> priority_boost_aging (tasks (fst (sim_tick ty (ctx, st))) ! i) = 0)
       \<and> (aging_inv ctx \<longrightarrow> aging_inv (fst (sim_tick ty (ctx, st))))
       \<and> aging_inv (fst (sim_run ty n (sim_start ctx0 stats0)))"
proof (intro conjI impI)
  assume a: "ready (tasks (sim_prepare_tick ctx) ! i) \<and> int i \<notin> set (assigned_of ty ctx)"
  note t = sim_tick_task(3) [OF len i, of ty st]
  show "wait_time (tasks (fst (sim_tick ty (ctx, st))) ! i) = wait_time (tasks ctx ! i) + 1"
    using t a by simp
  show "priority_boost_aging (tasks (fst (sim_tick ty (ctx, st))) ! i)
              = (if unat (wait_time (tasks ctx ! i) + 1) > AGING_THRESHOLD
                 then AGING_PRIORITY_BOOST else priority_boost_aging (tasks ctx ! i))"
    using t a by simp
  assume "unat (wait_time (tasks (fst (sim_tick ty (ctx, st))) ! i)) > AGING_THRESHOLD"
  then show "priority_boost_aging (tasks (fst (sim_tick ty (ctx, st))) ! i) = AGING_PRIORITY_BOOST"
    using t a by simp
next
  assume a: "int i \<in> set (assigned_of ty ctx)"
  show "wait_time (tasks (fst (sim_tick ty (ctx, st))) ! i) = 0"
    using sim_tick_task(2) [OF len i a] by simp
  show "priority_boost_aging (tasks (fst (sim_tick ty (ctx, st))) ! i) = 0"
    using sim_tick_task(2) [OF len i a] by simp
next
  assume "aging_inv ctx"
  then show "aging_inv (fst (sim_tick ty (ctx, st)))" by (rule sim_tick_aging_inv)
next
  show "aging_inv (fst (sim_run ty n (sim_start ctx0 stats0)))"
    using sim_run_aging_inv [OF start_aging_inv] .
qed

theorem sim_aging_witness:
  "length (tasks waiting_ctx) = SIM_TASK_COUNT
   \<and> ready (tasks (sim_prepare_tick waiting_ctx) ! 5)
   \<and> int 5 \<notin> set (assigned_of SCHED_BASELINE waiting_ctx)
   \<and> wait_time (tasks waiting_ctx ! 5) = 100
   \<and> wait_time (tasks (fst (sim_tick SCHED_BASELINE (waiting_ctx, zero_stats))) ! 5) = 101
   \<and> priority_boost_aging (tasks (fst (sim_tick SCHED_BASELINE (waiting_ctx, zero_stats))) ! 5)
       = AGING_PRIORITY_BOOST
   \<and> int 0 \<in> set (assigned_of SCHED_BASELINE waiting_ctx)
   \<and> wait_time (tasks (fst (sim_tick SCHED_BASELINE (waiting_ctx, zero_stats))) ! 0) = 0
   \<and> aging_inv waiting_ctx
   \<and> aging_inv (fst (sim_tick SCHED_BASELINE (waiting_ctx, zero_stats)))"
proof -
  have l: "length (tasks waiting_ctx) = SIM_TASK_COUNT" by code_simp
  have i5: "(5::nat) < SIM_TASK_COUNT" and i0: "(0::nat) < SIM_TASK_COUNT" by code_simp+
  have r: "ready (tasks (sim_prepare_tick waiting_ctx) ! 5)" by code_simp
  have n: "int 5 \<notin> set (assigned_of SCHED_BASELINE waiting_ctx)" by code_simp
  have w: "wait_time (tasks waiting_ctx ! 5) = 100" by code_simp
  have s: "int 0 \<in> set (assigned_of SCHED_BASELINE waiting_ctx)" by code_simp
  have lw: "list_all (\<lambda>t. \<not> unat (wait_time t) > AGING_THRESHOLD) (tasks waiting_ctx)"
    by code_simp
  have inv: "aging_inv waiting_ctx"
    unfolding aging_inv_def using l lw by (simp add: list_all_length)
  have a5: "wait_time (tasks (fst (sim_tick SCHED_BASELINE (waiting_ctx, zero_stats))) ! 5) = 101
     \<and> priority_boost_aging (tasks (fst (sim_tick SCHED_BASELINE (waiting_ctx, zero_stats))) ! 5)
         = AGING_PRIORITY_BOOST"
    using sim_aging [OF l i5, of SCHED_BASELINE zero_stats] r n w
    by (simp add: AGING_THRESHOLD_def)
  have a0: "wait_time (tasks (fst (sim_tick SCHED_BASELINE (waiting_ctx, zero_stats))) ! 0) = 0"
    using sim_aging [OF l i0, of SCHED_BASELINE zero_stats] s by simp
  have inv': "aging_inv (fst (sim_tick SCHED_BASELINE (waiting_ctx, zero_stats)))"
    using sim_aging [OF l i0, of SCHED_BASELINE zero_stats] inv by simp
  show ?thesis using l r n w a5 s a0 inv inv' by simp
qed

subsection \<open>The contexts of a run and the HTAS selection on them\<close>







lemma prepare_task_prio [simp]: "task_priorities (prepare_task t) = task_priorities t"
  by (simp add: task_priorities_def prepare_task_def Let_def)


lemma selected_prio [simp]:
  "task_priorities (t\<lparr>selected_this_tick := b\<rparr>) = task_priorities t"
  by (simp add: task_priorities_def)


















end
